theory Spec2Isabelle
  imports Main
begin

section \<open>History manager (commitToHistory, restoreFromHistory)\<close>

text \<open>
  The application keeps its document, the history stack and the current index in React
  state. The model is a record of that state; every handler is a function from the state
  of the render it was created in to the state of the next render. Values that may be
  \<open>null\<close> in the source are \<open>option\<close> values.

  \<^verbatim>\<open>interface HistoryEntry { data: MindMapData; description: string; timestamp: number; }\<close>
\<close>

record 'd HistoryEntry =
  entry_data :: 'd
  entry_description :: string
  timestamp :: nat

text \<open>
  \<open>logger.info\<close>, \<open>logger.success\<close>: the global logger, kept as the list of the
  messages it has received. \<open>savedSessions\<close> are the documents handed to
  \<open>saveSessionFile\<close>; \<open>calls\<close> is a ghost trace of the sub-operations a handler
  invoked, one entry per call of the source.
\<close>

datatype log_level = Info | Success

datatype call = CheckDependencies string | CommitToHistory string | SaveSessionFile

record 'd app_state =
  mindMap :: "'d option"
  history :: "'d HistoryEntry list"
  historyIndex :: int
  unsavedChanges :: bool
  autoSave :: bool
  isDevMode :: bool
  logs :: "(log_level \<times> string) list"
  savedSessions :: "'d list"
  calls :: "call list"

text \<open>\<open>useState([])\<close>, \<open>useState(-1)\<close>, \<open>useState(null)\<close>, \<open>DEFAULT_SETTINGS\<close>.\<close>

definition initial_state :: "'d app_state" where
  "initial_state =
     \<lparr>mindMap = None, history = [], historyIndex = - 1, unsavedChanges = False,
      autoSave = False, isDevMode = False, logs = [], savedSessions = [], calls = []\<rparr>"

text \<open>
  \<open>Array.prototype.slice(0, e)\<close>: a negative end counts from the end of the array, and
  an end beyond the length is the length.
\<close>

definition slice0 :: "int \<Rightarrow> 'a list \<Rightarrow> 'a list" where
  "slice0 e xs = (if e < 0 then take (nat (int (length xs) + e)) xs else take (nat e) xs)"

text \<open>
  \<^verbatim>\<open>
  const commitToHistory = useCallback((newData, description) => {
      setMindMap(newData);
      setUnsavedChanges(true);
      setHistory(prev => {
          const currentHistory = prev.slice(0, historyIndex + 1);
          const newHistory = [...currentHistory, { data: newData, description, timestamp: Date.now() }];
          if (newHistory.length > 10) newHistory.shift();
          return newHistory;
      });
      logger.info("Committed State to History", { description });
  }, [historyIndex]);

  useEffect(() => { setHistoryIndex(history.length - 1); }, [history]);
  \<close>
  \<open>Date.now()\<close> is the argument \<open>now\<close>. The effect runs after the render that
  follows every change of \<open>history\<close>, so the state after a commit has the index it sets.
  \<open>shift\<close> on the non-empty \<open>newHistory\<close> removes its first element.
\<close>

definition commitToHistory :: "'d \<Rightarrow> string \<Rightarrow> nat \<Rightarrow> 'd app_state \<Rightarrow> 'd app_state" where
  "commitToHistory newData description now s =
     (let currentHistory = slice0 (historyIndex s + 1) (history s);
          newHistory = currentHistory @
            [\<lparr>entry_data = newData, entry_description = description, timestamp = now\<rparr>];
          newHistory = (if length newHistory > 10 then tl newHistory else newHistory)
      in s\<lparr>mindMap := Some newData,
            unsavedChanges := True,
            history := newHistory,
            historyIndex := int (length newHistory) - 1,
            logs := logs s @ [(Info, ''Committed State to History'')]\<rparr>)"

text \<open>
  \<^verbatim>\<open>
  const restoreFromHistory = (index: number) => {
      if (index >= 0 && index < history.length) {
          setMindMap(history[index].data);
          setHistoryIndex(index);
          setActiveInfoModal(null);
          logger.info("Restored State from History", { index });
      }
  };
  \<close>
\<close>

definition restoreFromHistory :: "int \<Rightarrow> 'd app_state \<Rightarrow> 'd app_state" where
  "restoreFromHistory index s =
     (if index \<ge> 0 \<and> index < int (length (history s))
      then s\<lparr>mindMap := Some (entry_data (history s ! nat index)),
             historyIndex := index,
             logs := logs s @ [(Info, ''Restored State from History'')]\<rparr>
      else s)"

text \<open>The undo and redo buttons: \<open>restoreFromHistory(historyIndex - 1)\<close> and \<open>(historyIndex + 1)\<close>.\<close>

definition undo :: "'d app_state \<Rightarrow> 'd app_state" where
  "undo s = restoreFromHistory (historyIndex s - 1) s"

definition redo :: "'d app_state \<Rightarrow> 'd app_state" where
  "redo s = restoreFromHistory (historyIndex s + 1) s"

text \<open>A user session: any sequence of commits and restores, run from a state.\<close>

datatype 'd history_op = Commit 'd string nat | Restore int

fun run_op :: "'d history_op \<Rightarrow> 'd app_state \<Rightarrow> 'd app_state" where
  "run_op (Commit d description now) s = commitToHistory d description now s"
| "run_op (Restore index) s = restoreFromHistory index s"

definition run_ops :: "'d history_op list \<Rightarrow> 'd app_state \<Rightarrow> 'd app_state" where
  "run_ops ops s = foldl (\<lambda>s' op. run_op op s') s ops"

text \<open>Committing a list of entries one after the other, with no undo in between.\<close>

definition commit_all :: "'d HistoryEntry list \<Rightarrow> 'd app_state \<Rightarrow> 'd app_state" where
  "commit_all es s =
     foldl (\<lambda>s' e. commitToHistory (entry_data e) (entry_description e) (timestamp e) s') s es"

text \<open>
  What every state reached from the initial one satisfies: the stack holds at most ten
  entries and the index is \<open>-1\<close> (empty stack) or a position of the stack.
\<close>

definition history_inv :: "'d app_state \<Rightarrow> bool" where
  "history_inv s \<longleftrightarrow> length (history s) \<le> 10 \<and> - 1 \<le> historyIndex s \<and> historyIndex s < int (length (history s))"

section \<open>The document tree\<close>

text \<open>
  Modelled from the spec: the declaration of the type \<open>MindMapData\<close>, which the
  functions import from a types module that is not among the source files. Section 3 of
  the spec gives a node an identifier, a label, an ordered list of children, the optional
  \<open>watchedNodeIds\<close>, \<open>isFlaggedForReview\<close> and \<open>flaggedSourceIds\<close>, and further
  properties (description, tags, cached content, lock flags, ...). The datatype has the
  properties the functions below read; the further ones are carried in \<open>other\<close>.
  The functions read \<open>watchedNodeIds\<close>, \<open>flaggedSourceIds\<close> and \<open>children\<close>
  through \<open>?.\<close>, \<open>||\<close> and \<open>if (root.children)\<close>, so these are \<open>option\<close>
  values, \<open>None\<close> for an absent property. The property \<open>id\<close> is the selector
  \<open>node_id\<close>.
\<close>

datatype 'a MindMapData =
  MindMapData (node_id: string) (label: string)
    (watchedNodeIds: "string list option")
    (isFlaggedForReview: "bool option")
    (flaggedSourceIds: "string list option")
    (other: 'a)
    (children: "'a MindMapData list option")

subsection \<open>findNodeAndPath\<close>

text \<open>
  \<^verbatim>\<open>
  const findNodeAndPath = (root, targetId, currentPath = []) => {
    if (root.id === targetId) return { node: root, path: [...currentPath, root.label], parent: null };
    if (root.children) {
      for (const child of root.children) {
          if (child.id === targetId)
            return { node: child, path: [...currentPath, root.label, child.label], parent: root };
          const result = findNodeAndPath(child, targetId, [...currentPath, root.label]);
          if (result) return result;
      }
    }
    return null;
  };
  \<close>
  The \<open>for\<close> loop is \<open>findNodeAndPath_loop\<close> over the children that remain.
\<close>

record 'a found =
  node :: "'a MindMapData"
  path :: "string list"
  parent :: "'a MindMapData option"

fun findNodeAndPath :: "'a MindMapData \<Rightarrow> string \<Rightarrow> string list \<Rightarrow> 'a found option"
  and findNodeAndPath_loop ::
    "'a MindMapData \<Rightarrow> 'a MindMapData list \<Rightarrow> string \<Rightarrow> string list \<Rightarrow> 'a found option" where
  "findNodeAndPath (MindMapData i l w f fs x ch) targetId currentPath =
     (if i = targetId
      then Some \<lparr>node = MindMapData i l w f fs x ch, path = currentPath @ [l], parent = None\<rparr>
      else case ch of
             None \<Rightarrow> None
           | Some cs \<Rightarrow> findNodeAndPath_loop (MindMapData i l w f fs x ch) cs targetId currentPath)"
| "findNodeAndPath_loop root [] targetId currentPath = None"
| "findNodeAndPath_loop root (child # rest) targetId currentPath =
     (if node_id child = targetId
      then Some \<lparr>node = child, path = currentPath @ [label root, label child], parent = Some root\<rparr>
      else case findNodeAndPath child targetId (currentPath @ [label root]) of
             Some result \<Rightarrow> Some result
           | None \<Rightarrow> findNodeAndPath_loop root rest targetId currentPath)"

subsection \<open>calculateNodeNumber\<close>

text \<open>The decimal digits of a number, as a template literal writes \<open>i + 1\<close>.\<close>

definition digit :: "nat \<Rightarrow> char" where
  "digit d = ''0123456789'' ! d"

function string_of_nat :: "nat \<Rightarrow> string" where
  "string_of_nat n = (if n < 10 then [digit n] else string_of_nat (n div 10) @ [digit (n mod 10)])"
  by pat_completeness auto
termination
  by (relation "measure id") simp_all

declare string_of_nat.simps [simp del]



subsection \<open>checkDependencies\<close>

text \<open>
  \<^verbatim>\<open>
  const checkDependencies = (root, changedNodeId) => {
      const traverse = (node) => {
          const newNode = { ...node };
          if (newNode.watchedNodeIds?.includes(changedNodeId)) {
              newNode.isFlaggedForReview = true;
              const currentFlags = newNode.flaggedSourceIds || [];
              if (!currentFlags.includes(changedNodeId)) {
                  newNode.flaggedSourceIds = [...currentFlags, changedNodeId];
              }
          }
          if (newNode.children) {
              newNode.children = newNode.children.map(traverse);
          }
          return newNode;
      };
      return traverse(root);
  };
  \<close>
  \<open>traverse\<close> closes over \<open>changedNodeId\<close>; the model is the recursive function
  itself, with the changed id as its second argument.
\<close>

fun checkDependencies :: "'a MindMapData \<Rightarrow> string \<Rightarrow> 'a MindMapData" where
  "checkDependencies (MindMapData i l w f fs x ch) changedNodeId =
     (let watching = (case w of None \<Rightarrow> False | Some ws \<Rightarrow> changedNodeId \<in> set ws);
          currentFlags = (case fs of None \<Rightarrow> [] | Some c \<Rightarrow> c);
          f' = (if watching then Some True else f);
          fs' = (if watching \<and> changedNodeId \<notin> set currentFlags
                 then Some (currentFlags @ [changedNodeId]) else fs)
      in MindMapData i l w f' fs' x (map_option (map (\<lambda>c. checkDependencies c changedNodeId)) ch))"

subsection \<open>updateNodeInTree\<close>

text \<open>
  \<open>Object.assign(target, source)\<close> writes every property of \<open>source\<close> into
  \<open>target\<close>; a property \<open>source\<close> does not have keeps the value \<open>target\<close> had.
\<close>

definition orElse :: "'b option \<Rightarrow> 'b option \<Rightarrow> 'b option" where
  "orElse new old = (case new of Some v \<Rightarrow> Some v | None \<Rightarrow> old)"

definition objectAssign :: "'a MindMapData \<Rightarrow> 'a MindMapData \<Rightarrow> 'a MindMapData" where
  "objectAssign target source =
     MindMapData (node_id source) (label source)
       (orElse (watchedNodeIds source) (watchedNodeIds target))
       (orElse (isFlaggedForReview source) (isFlaggedForReview target))
       (orElse (flaggedSourceIds source) (flaggedSourceIds target))
       (other source)
       (orElse (children source) (children target))"

text \<open>
  \<open>Object.assign(target.node, updateFn(target.node))\<close> mutates, inside the clone, the
  node that \<open>findNodeAndPath\<close> returned: the first node with the identifier in the
  order of that search. \<open>assignAt\<close> rebuilds the clone with that node replaced, and is
  \<open>None\<close> when the search finds no node.
\<close>

fun assignAt ::
    "('a MindMapData \<Rightarrow> 'a MindMapData) \<Rightarrow> string \<Rightarrow> 'a MindMapData \<Rightarrow> 'a MindMapData option"
  and assignAt_loop ::
    "('a MindMapData \<Rightarrow> 'a MindMapData) \<Rightarrow> string \<Rightarrow> 'a MindMapData list \<Rightarrow>
     'a MindMapData list option" where
  "assignAt updateFn targetId (MindMapData i l w f fs x ch) =
     (if i = targetId
      then Some (objectAssign (MindMapData i l w f fs x ch) (updateFn (MindMapData i l w f fs x ch)))
      else case ch of
             None \<Rightarrow> None
           | Some cs \<Rightarrow> map_option (\<lambda>cs'. MindMapData i l w f fs x (Some cs'))
                        (assignAt_loop updateFn targetId cs))"
| "assignAt_loop updateFn targetId [] = None"
| "assignAt_loop updateFn targetId (child # rest) =
     (case assignAt updateFn targetId child of
        Some child' \<Rightarrow> Some (child' # rest)
      | None \<Rightarrow> map_option (\<lambda>rest'. child # rest') (assignAt_loop updateFn targetId rest))"

text \<open>
  \<open>saveSessionFile\<close> downloads the session as a file, clears the unsaved flag and logs
  the success.
\<close>

definition saveSessionFile ::
  "'a MindMapData \<Rightarrow> 'a MindMapData app_state \<Rightarrow> 'a MindMapData app_state" where
  "saveSessionFile d s =
     s\<lparr>savedSessions := savedSessions s @ [d],
       unsavedChanges := False,
       logs := logs s @ [(Success, ''Session Saved'')],
       calls := calls s @ [SaveSessionFile]\<rparr>"

text \<open>
  \<^verbatim>\<open>
  const updateNodeInTree = (nodeId, updateFn, actionDescription = "Update node",
                            shouldAutoSave = false, triggerDependencyCheck = false) => {
      if (!mindMap) return;
      let clone = JSON.parse(JSON.stringify(mindMap));
      const target = findNodeAndPath(clone, nodeId);
      if (target) {
          Object.assign(target.node, updateFn(target.node));
          if (triggerDependencyCheck) {
              clone = checkDependencies(clone, nodeId);
          }
          commitToHistory(clone, actionDescription);
          if (shouldAutoSave && (settings.autoSave || isDevMode)) {
              saveSessionFile(clone);
          }
      }
  };
  \<close>
  The clone of a value is the value. Every call of \<open>checkDependencies\<close>,
  \<open>commitToHistory\<close> and \<open>saveSessionFile\<close> adds its entry to the ghost trace
  \<open>calls\<close>.
\<close>

definition updateNodeInTree ::
  "string \<Rightarrow> ('a MindMapData \<Rightarrow> 'a MindMapData) \<Rightarrow> string \<Rightarrow> bool \<Rightarrow> bool \<Rightarrow> nat \<Rightarrow>
   'a MindMapData app_state \<Rightarrow> 'a MindMapData app_state" where
  "updateNodeInTree nodeId updateFn actionDescription shouldAutoSave triggerDependencyCheck now s =
     (case mindMap s of
        None \<Rightarrow> s
      | Some current \<Rightarrow>
          (let clone = current
           in case findNodeAndPath clone nodeId [] of
                None \<Rightarrow> s
              | Some target \<Rightarrow>
                  (let clone = (case assignAt updateFn nodeId clone of
                                  Some c \<Rightarrow> c | None \<Rightarrow> clone);
                       (clone, s) = (if triggerDependencyCheck
                                     then (checkDependencies clone nodeId,
                                           s\<lparr>calls := calls s @ [CheckDependencies nodeId]\<rparr>)
                                     else (clone, s));
                       s = commitToHistory clone actionDescription now
                             (s\<lparr>calls := calls s @ [CommitToHistory actionDescription]\<rparr>)
                   in if shouldAutoSave \<and> (autoSave s \<or> isDevMode s)
                      then saveSessionFile clone s else s)))"

subsection \<open>Vocabulary for the properties\<close>

text \<open>The identifiers and the nodes of a tree, in depth-first pre-order.\<close>

fun node_ids :: "'a MindMapData \<Rightarrow> string list" where
  "node_ids (MindMapData i l w f fs x ch) =
     i # (case ch of None \<Rightarrow> [] | Some cs \<Rightarrow> concat (map node_ids cs))"

fun all_nodes :: "'a MindMapData \<Rightarrow> 'a MindMapData list" where
  "all_nodes (MindMapData i l w f fs x ch) =
     MindMapData i l w f fs x ch #
       (case ch of None \<Rightarrow> [] | Some cs \<Rightarrow> concat (map all_nodes cs))"

text \<open>
  A node watches \<open>c\<close> when its \<open>watchedNodeIds\<close> contain \<open>c\<close>; it is flagged by
  \<open>c\<close> when \<open>isFlaggedForReview\<close> is true and its \<open>flaggedSourceIds\<close> contain
  \<open>c\<close>. \<open>unflagged_view\<close> is what \<open>checkDependencies\<close> never writes.
\<close>

definition watches :: "'a MindMapData \<Rightarrow> string \<Rightarrow> bool" where
  "watches n c = (case watchedNodeIds n of None \<Rightarrow> False | Some ws \<Rightarrow> c \<in> set ws)"

definition flags :: "'a MindMapData \<Rightarrow> string list" where
  "flags n = (case flaggedSourceIds n of None \<Rightarrow> [] | Some fl \<Rightarrow> fl)"

definition flagged_by :: "string \<Rightarrow> 'a MindMapData \<Rightarrow> bool" where
  "flagged_by c n \<longleftrightarrow> isFlaggedForReview n = Some True \<and> c \<in> set (flags n)"

definition unflagged_view :: "'a MindMapData \<Rightarrow> string \<times> string \<times> string list option \<times> 'a" where
  "unflagged_view n = (node_id n, label n, watchedNodeIds n, other n)"

text \<open>A small document: a root with two children, the first of which watches the second.\<close>

definition example_document :: "unit MindMapData" where
  "example_document =
     MindMapData ''r'' ''Root'' None None None ()
       (Some [MindMapData ''a'' ''A'' (Some [''b'']) None None ()
                (Some [MindMapData ''a1'' ''A1'' None None None () None,
                       MindMapData ''a2'' ''A2'' None None None () None]),
              MindMapData ''b'' ''B'' None None None () (Some [])])"


section \<open>Process steps\<close>

text \<open>
  Modelled from the spec: the declarations of the types \<open>ProcessStep\<close> and
  \<open>ProcessBranch\<close>, which the functions import from a types module that is not among
  the source files. Section 3 of the spec gives a step a unique id, a sequence number, a
  type (action or decision), a title, a description, a role, an end-state flag for
  actions and, for decisions, an ordered list of branches, each with a label and an
  optional target step id; the functions also read the \<open>id\<close> of a branch. The
  generation prompt of the repository describes the same step:
  \<^verbatim>\<open>
  interface ProcessStep {
    id: string; stepNumber: number; type: 'action' | 'decision';
    action: string; description: string; role: string;
    branches?: { label: string; targetStepId?: string }[];
  }
  \<close>
  An absent \<open>targetStepId\<close> or \<open>branches\<close> is \<open>None\<close>; \<open>isEndState\<close> is read
  only through \<open>!step.isEndState\<close>, so an absent one is \<open>False\<close>. The properties
  \<open>id\<close>, \<open>type\<close>, \<open>label\<close> and \<open>description\<close> are the fields
  \<open>step_id\<close>, \<open>step_type\<close>, \<open>branch_id\<close>, \<open>branch_label\<close> and
  \<open>step_description\<close>.
\<close>

datatype step_type = Action | Decision

record ProcessBranch =
  branch_id :: string
  branch_label :: string
  targetStepId :: "string option"

record ProcessStep =
  step_id :: string
  stepNumber :: int
  step_type :: step_type
  action :: string
  step_description :: string
  role :: string
  isEndState :: bool
  branches :: "ProcessBranch list option"

text \<open>
  \<open>!!b.targetStepId\<close>, \<open>if (branch.targetStepId)\<close>: an absent value and the empty
  string are false, every other string is true.
\<close>

definition truthy :: "string option \<Rightarrow> bool" where
  "truthy v = (case v of None \<Rightarrow> False | Some s \<Rightarrow> s \<noteq> [])"

subsection \<open>String operations\<close>

text \<open>
  A string is the list of the bytes of its UTF-8 encoding, so a character outside ASCII
  is two to four bytes, each of them \<open>0x80\<close> or above, and an ASCII keyword occurs in
  a string exactly when its bytes do.

  \<open>String.prototype.toLowerCase\<close> replaces every character by its lower case in the
  Unicode character database. The characters whose lower case contains an ASCII letter
  are the capitals A to Z, the Kelvin sign U+212A, whose lower case is \<open>k\<close>, and the
  capital I with dot above U+0130, whose lower case is \<open>i\<close> followed by the
  combining dot above U+0307. \<open>toLowerCase\<close> rewrites these. Every other character
  is kept as it is: its lower case is itself or other characters outside ASCII, and the
  only use of the lower-cased string is \<open>includes(k)\<close> for the seven keywords below,
  which are ASCII letters, so that no test depends on the difference.

  \<open>str_includes s k\<close> is \<open>s.includes(k)\<close>: \<open>k\<close> occurs in \<open>s\<close> as a contiguous
  substring.
\<close>

definition toLowerCase_char :: "char \<Rightarrow> char" where
  "toLowerCase_char c =
     (case map_of (zip ''ABCDEFGHIJKLMNOPQRSTUVWXYZ'' ''abcdefghijklmnopqrstuvwxyz'') c of
        Some d \<Rightarrow> d
      | None \<Rightarrow> c)"

definition kelvin_sign :: string where
  "kelvin_sign = [CHR 0xE2, CHR 0x84, CHR 0xAA]"

definition capital_i_with_dot :: string where
  "capital_i_with_dot = [CHR 0xC4, CHR 0xB0]"

definition combining_dot :: string where
  "combining_dot = [CHR 0xCC, CHR 0x87]"

fun toLowerCase :: "string \<Rightarrow> string" where
  "toLowerCase [] = []"
| "toLowerCase (c # s) =
     (if c # take 2 s = kelvin_sign then CHR ''k'' # toLowerCase (drop 2 s)
      else if c # take 1 s = capital_i_with_dot
           then CHR ''i'' # combining_dot @ toLowerCase (drop 1 s)
           else toLowerCase_char c # toLowerCase s)"

fun startsWith :: "string \<Rightarrow> string \<Rightarrow> bool" where
  "startsWith s [] = True"
| "startsWith [] (k # ks) = False"
| "startsWith (c # s) (k # ks) = (c = k \<and> startsWith s ks)"

fun str_includes :: "string \<Rightarrow> string \<Rightarrow> bool" where
  "str_includes [] k = (k = [])"
| "str_includes (c # s) k = (startsWith (c # s) k \<or> str_includes s k)"

text \<open>
  \<open>Array.prototype.findIndex\<close>: the first position whose element satisfies the
  predicate, \<open>-1\<close> when there is none. \<open>at_index xs i\<close> is \<open>xs[i]\<close>, \<open>undefined\<close>
  (\<open>None\<close>) beyond the end.
\<close>

fun findIndex :: "('a \<Rightarrow> bool) \<Rightarrow> 'a list \<Rightarrow> int" where
  "findIndex p [] = - 1"
| "findIndex p (x # xs) =
     (if p x then 0 else (let r = findIndex p xs in if r = - 1 then - 1 else r + 1))"

definition at_index :: "'a list \<Rightarrow> nat \<Rightarrow> 'a option" where
  "at_index xs i = (if i < length xs then Some (xs ! i) else None)"

subsection \<open>autoLinkDecisions\<close>

text \<open>
  \<^verbatim>\<open>
  const autoLinkDecisions = (steps: ProcessStep[]): ProcessStep[] => {
      return steps.map((step, index) => {
          if (step.type === 'decision' && step.branches && step.branches.length > 0) {
              const nextStep = steps[index + 1];
              if (nextStep) {
                  const positiveKeywords = ['yes', 'success', 'pass', 'ok', 'true', 'confirmed', 'valid'];
                  const hasLink = step.branches.some(b => !!b.targetStepId);
                  if (!hasLink) {
                      const bestBranchIndex = step.branches.findIndex(b =>
                          positiveKeywords.some(k => b.label.toLowerCase().includes(k)));
                      const targetIndex = bestBranchIndex !== -1 ? bestBranchIndex : 0;
                      const newBranches = [...step.branches];
                      newBranches[targetIndex] = { ...newBranches[targetIndex], targetStepId: nextStep.id };
                      return { ...step, branches: newBranches };
                  }
              }
          }
          return step;
      });
  };
  \<close>
  \<open>autoLinkStep\<close> is the callback of \<open>map\<close>, with the step and its index.
\<close>

definition positiveKeywords :: "string list" where
  "positiveKeywords = [''yes'', ''success'', ''pass'', ''ok'', ''true'', ''confirmed'', ''valid'']"

definition looksPositive :: "ProcessBranch \<Rightarrow> bool" where
  "looksPositive b = list_ex (\<lambda>k. str_includes (toLowerCase (branch_label b)) k) positiveKeywords"

definition autoLinkStep :: "ProcessStep list \<Rightarrow> ProcessStep \<Rightarrow> nat \<Rightarrow> ProcessStep" where
  "autoLinkStep steps step index =
     (case branches step of
        None \<Rightarrow> step
      | Some bs \<Rightarrow>
          if step_type step = Decision \<and> length bs > 0
          then (case at_index steps (index + 1) of
                  None \<Rightarrow> step
                | Some nextStep \<Rightarrow>
                    (let hasLink = list_ex (\<lambda>b. truthy (targetStepId b)) bs
                     in if \<not> hasLink
                        then (let bestBranchIndex = findIndex looksPositive bs;
                                  targetIndex = (if bestBranchIndex \<noteq> - 1 then bestBranchIndex else 0);
                                  newBranches = bs[nat targetIndex :=
                                    (bs ! nat targetIndex)\<lparr>targetStepId := Some (step_id nextStep)\<rparr>]
                              in step\<lparr>branches := Some newBranches\<rparr>)
                        else step))
          else step)"

definition autoLinkDecisions :: "ProcessStep list \<Rightarrow> ProcessStep list" where
  "autoLinkDecisions steps =
     map (\<lambda>(step, index). autoLinkStep steps step index) (zip steps [0 ..< length steps])"

text \<open>
  The claim's own words, to compare the code with. A label contains a keyword,
  case-insensitively, when the keyword is spelled somewhere in the label with each of
  its letters in lower case or as a character whose lower case it is: its capital, and
  for \<open>k\<close> also the Kelvin sign. \<open>spelled s kw\<close> says that \<open>s\<close> begins with such a
  spelling of \<open>kw\<close>. A branch names a keyword when its label contains one of the seven
  keywords of the claim.
\<close>

definition same_letter :: "char \<Rightarrow> char \<Rightarrow> bool" where
  "same_letter c k \<longleftrightarrow>
     c = k \<or> (c, k) \<in> set (zip ''ABCDEFGHIJKLMNOPQRSTUVWXYZ'' ''abcdefghijklmnopqrstuvwxyz'')"

fun spelled :: "string \<Rightarrow> string \<Rightarrow> bool" where
  "spelled s [] = True"
| "spelled [] (k # ks) = False"
| "spelled (c # s) (k # ks) =
     (same_letter c k \<and> spelled s ks
      \<or> k = CHR ''k'' \<and> c # take 2 s = kelvin_sign \<and> spelled (drop 2 s) ks)"

fun contains_ci :: "string \<Rightarrow> string \<Rightarrow> bool" where
  "contains_ci [] kw = (kw = [])"
| "contains_ci (c # s) kw = (spelled (c # s) kw \<or> contains_ci s kw)"

definition names_keyword :: "ProcessBranch \<Rightarrow> bool" where
  "names_keyword b =
     list_ex (contains_ci (branch_label b))
       [''yes'', ''success'', ''pass'', ''ok'', ''true'', ''confirmed'', ''valid'']"

text \<open>
  A step is linkable when it is a decision with at least one branch, none of its
  branches has a target, and a step follows it. The chosen branch is the first one that
  names a keyword, the first branch when none does. Linking writes the next step's
  identifier into the chosen branch.
\<close>

definition linkable :: "ProcessStep list \<Rightarrow> nat \<Rightarrow> bool" where
  "linkable steps i \<longleftrightarrow>
     Suc i < length steps \<and> step_type (steps ! i) = Decision \<and>
     (case branches (steps ! i) of
        None \<Rightarrow> False
      | Some bs \<Rightarrow> bs \<noteq> [] \<and> \<not> list_ex (\<lambda>b. truthy (targetStepId b)) bs)"

definition chosen_branch :: "ProcessBranch list \<Rightarrow> nat" where
  "chosen_branch bs =
     (if list_ex names_keyword bs then length (takeWhile (\<lambda>b. \<not> names_keyword b) bs) else 0)"

definition link_to :: "ProcessStep \<Rightarrow> ProcessStep \<Rightarrow> ProcessStep" where
  "link_to nextStep step =
     (case branches step of
        None \<Rightarrow> step
      | Some bs \<Rightarrow>
          step\<lparr>branches := Some (bs[chosen_branch bs :=
            (bs ! chosen_branch bs)\<lparr>targetStepId := Some (step_id nextStep)\<rparr>])\<rparr>)"

text \<open>The letters of the keywords.\<close>

definition letters :: "char set" where
  "letters = set ''abcdefghijklmnopqrstuvwxyz''"

section \<open>Process flow projection (buildTree)\<close>

text \<open>
  \<^verbatim>\<open>
  interface DisplayNode {
      id: string;
      data: any;
      children?: DisplayNode[];
      type: 'step' | 'placeholder';
      label?: string;
  }
  \<close>
  \<open>data\<close> is a step (for a loop node, a copy of the step with \<open>action\<close> and
  \<open>role\<close> rewritten) or, for a placeholder, an object with the one property
  \<open>action\<close>. Every node the projection builds has a \<open>children\<close> array.
\<close>

datatype display_type = Step | Placeholder

datatype display_data = StepData ProcessStep | ActionOnly string

datatype DisplayNode =
  DisplayNode (dn_id: string) (dn_data: display_data) (dn_type: display_type)
    (dn_label: "string option") (dn_children: "DisplayNode list")

text \<open>
  A number in a template literal. \<open>loop_arrow\<close> is the character U+21A9 that starts
  the label of a loop node, as its three UTF-8 bytes.
\<close>

definition string_of_int :: "int \<Rightarrow> string" where
  "string_of_int n = (if n < 0 then ''-'' @ string_of_nat (nat (- n)) else string_of_nat (nat n))"

definition loop_arrow :: string where
  "loop_arrow = [CHR 0xE2, CHR 0x86, CHR 0xA9]"

text \<open>
  \<^verbatim>\<open>
  return {
      id: `loop-${step.id}-${Math.random().toString(36).substr(2, 9)}`,
      data: { ...step, action: `<U+21A9> Loop to Step ${step.stepNumber}`, role: 'Process Cycle' },
      type: 'step',
      children: []
  };
  \<close>
  The random suffix, at most nine digits in base 36 (\<open>0\<close> to \<open>9\<close> and \<open>a\<close> to
  \<open>z\<close>), is the argument \<open>suffix\<close>.
\<close>

definition loopNode :: "ProcessStep \<Rightarrow> string \<Rightarrow> DisplayNode" where
  "loopNode step suffix =
     DisplayNode (''loop-'' @ step_id step @ ''-'' @ suffix)
       (StepData (step\<lparr>action := loop_arrow @ '' Loop to Step '' @ string_of_int (stepNumber step),
                       role := ''Process Cycle''\<rparr>))
       Step None []"

text \<open>
  \<^verbatim>\<open>
  { id: `missing-${branch.id}`, data: { action: "Undefined Path" }, type: 'placeholder',
    label: branch.label, children: [] }
  \<close>
\<close>

definition placeholderNode :: "ProcessBranch \<Rightarrow> DisplayNode" where
  "placeholderNode branch =
     DisplayNode (''missing-'' @ branch_id branch) (ActionOnly ''Undefined Path'') Placeholder
       (Some (branch_label branch)) []"

text \<open>
  \<^verbatim>\<open>
  const idMap = new Map<string, ProcessStep>();
  steps.forEach(s => idMap.set(s.id, s));
  \<close>
  A later step with the same identifier replaces the earlier one.
\<close>

definition idMap :: "ProcessStep list \<Rightarrow> string \<Rightarrow> ProcessStep option" where
  "idMap steps = foldl (\<lambda>m s. m(step_id s \<mapsto> s)) Map.empty steps"

text \<open>
  \<open>branch.targetStepId\<close> where it is read as a string, after \<open>if (branch.targetStepId)\<close>.
\<close>

definition target_of :: "ProcessBranch \<Rightarrow> string" where
  "target_of b = (case targetStepId b of Some t \<Rightarrow> t | None \<Rightarrow> [])"

text \<open>\<open>childNode.label = branch.label\<close>.\<close>

definition set_label :: "string \<Rightarrow> DisplayNode \<Rightarrow> DisplayNode" where
  "set_label l n = DisplayNode (dn_id n) (dn_data n) (dn_type n) (Some l) (dn_children n)"

definition step_ids :: "ProcessStep list \<Rightarrow> string set" where
  "step_ids steps = step_id ` set steps"

text \<open>What the termination proof of \<open>buildTree\<close> needs.\<close>

lemma idMap_foldl_in:
  "foldl (\<lambda>m s. m(step_id s \<mapsto> s)) m0 steps t = Some s \<Longrightarrow> s \<in> set steps \<and> step_id s = t \<or> m0 t = Some s"
proof (induction steps arbitrary: m0)
  case Nil
  then show ?case by simp
next
  case (Cons a steps)
  from Cons.prems have "foldl (\<lambda>m s. m(step_id s \<mapsto> s)) (m0(step_id a \<mapsto> a)) steps t = Some s"
    by (simp only: foldl_Cons)
  from Cons.IH [OF this] show ?case
    by (auto split: if_splits)
qed

lemma idMap_in: "idMap steps t = Some s \<Longrightarrow> s \<in> set steps \<and> step_id s = t"
  using idMap_foldl_in [of Map.empty steps t s] by (simp add: idMap_def)

lemma idMap_step_id: "idMap steps t = Some s \<Longrightarrow> step_id s \<in> step_ids steps"
  using idMap_in [of steps t s] unfolding step_ids_def by blast

lemma visit_decreases:
  assumes "step_id step \<notin> visited" and "step_id step \<in> step_ids steps"
  shows "card (step_ids steps - insert (step_id step) visited) < card (step_ids steps - visited)"
proof -
  have "finite (step_ids steps - visited)" by (simp add: step_ids_def)
  moreover have "step_id step \<in> step_ids steps - visited" using assms by simp
  ultimately have "card (step_ids steps - visited - {step_id step}) < card (step_ids steps - visited)"
    by (rule card_Diff1_less)
  moreover have "step_ids steps - insert (step_id step) visited = step_ids steps - visited - {step_id step}"
    by auto
  ultimately show ?thesis by simp
qed

lemma find_step_id: "find P steps = Some s \<Longrightarrow> step_id s \<in> step_ids steps"
  by (auto simp: find_Some_iff step_ids_def)

text \<open>
  \<^verbatim>\<open>
  const buildTree = (step: ProcessStep, visited: Set<string>): DisplayNode => {
      if (visited.has(step.id)) { return <the loop node>; }
      const newVisited = new Set(visited);
      newVisited.add(step.id);
      const node: DisplayNode = { id: step.id, data: step, type: 'step', children: [] };
      if (step.type === 'decision' && step.branches) {
          step.branches.forEach(branch => {
              if (branch.targetStepId) {
                  const targetStep = idMap.get(branch.targetStepId);
                  if (targetStep) {
                      const childNode = buildTree(targetStep, newVisited);
                      childNode.label = branch.label;
                      node.children?.push(childNode);
                  }
              } else {
                  node.children?.push(<the placeholder node>);
              }
          });
      } else {
          if (!step.isEndState) {
              const next = steps.find(s => s.stepNumber === step.stepNumber + 1);
              if (next) node.children?.push(buildTree(next, newVisited));
          }
      }
      return node;
  };
  \<close>
  \<open>Math.random\<close> is a source \<open>rnd\<close> of suffixes and a counter \<open>k\<close> of the draws
  made so far: the loop node built at counter \<open>k\<close> has the suffix \<open>rnd k\<close>, and
  the counter is returned with the node. \<open>buildTree_branches\<close> is the \<open>forEach\<close>
  over the branches that remain. The recursion is not structural: each call on a step
  that is not yet visited adds its identifier to the visited set, and the identifiers of
  the list that are not visited are the measure.
\<close>

function buildTree :: "(nat \<Rightarrow> string) \<Rightarrow> ProcessStep list \<Rightarrow> ProcessStep \<Rightarrow> string set \<Rightarrow> nat \<Rightarrow> DisplayNode \<times> nat"
  and buildTree_branches :: "(nat \<Rightarrow> string) \<Rightarrow> ProcessStep list \<Rightarrow> ProcessBranch list \<Rightarrow> string set \<Rightarrow> nat \<Rightarrow> DisplayNode list \<times> nat" where
  "buildTree rnd steps step visited k =
     (if step_id step \<in> visited then (loopNode step (rnd k), k + 1)
      else
        (let newVisited = insert (step_id step) visited
         in case (if step_type step = Decision then branches step else None) of
              Some bs \<Rightarrow>
                (case buildTree_branches rnd steps bs newVisited k of
                   (childNodes, k1) \<Rightarrow> (DisplayNode (step_id step) (StepData step) Step None childNodes, k1))
            | None \<Rightarrow>
                if \<not> isEndState step
                then (case find (\<lambda>s. stepNumber s = stepNumber step + 1) steps of
                        Some next \<Rightarrow>
                          (case buildTree rnd steps next newVisited k of
                             (child, k') \<Rightarrow>
                               (DisplayNode (step_id step) (StepData step) Step None [child], k'))
                      | None \<Rightarrow> (DisplayNode (step_id step) (StepData step) Step None [], k))
                else (DisplayNode (step_id step) (StepData step) Step None [], k)))"
| "buildTree_branches rnd steps [] newVisited k = ([], k)"
| "buildTree_branches rnd steps (branch # rest) newVisited k =
     (if truthy (targetStepId branch)
      then (case idMap steps (target_of branch) of
              Some targetStep \<Rightarrow>
                (case buildTree rnd steps targetStep newVisited k of
                   (childNode, k1) \<Rightarrow>
                     (case buildTree_branches rnd steps rest newVisited k1 of
                        (others, k2) \<Rightarrow> (set_label (branch_label branch) childNode # others, k2)))
            | None \<Rightarrow> buildTree_branches rnd steps rest newVisited k)
      else (case buildTree_branches rnd steps rest newVisited k of
              (others, k2) \<Rightarrow> (placeholderNode branch # others, k2)))"
  by pat_completeness auto
termination
  apply (relation "measures
    [\<lambda>x. case x of
        Inl (rnd, steps, step, visited, k) \<Rightarrow>
          card (step_ids steps - visited) + (if step_id step \<in> step_ids steps then 0 else 1)
      | Inr (rnd, steps, bs, visited, k) \<Rightarrow> card (step_ids steps - visited),
     \<lambda>x. case x of Inl _ \<Rightarrow> 0 | Inr (rnd, steps, bs, visited, k) \<Rightarrow> length bs + 1]")
     apply (simp_all del: card_Diff_insert)
  subgoal for steps step visited x x2
    using visit_decreases [of step visited steps] find_step_id [of _ steps x2] by blast
  subgoal for steps step visited x x2
    using visit_decreases [of step visited steps] by blast
  subgoal for steps branch x2
    using idMap_in [of steps _ x2] unfolding step_ids_def by blast
  done

declare buildTree.simps [simp del]

text \<open>
  \<^verbatim>\<open>
  if (!steps.length) return { root: null, ... };
  ...
  const firstStep = steps.reduce((prev, curr) => prev.stepNumber < curr.stepNumber ? prev : curr);
  const treeData = buildTree(firstStep, new Set());
  \<close>
\<close>

fun firstStep :: "ProcessStep list \<Rightarrow> ProcessStep option" where
  "firstStep [] = None"
| "firstStep (s # rest) =
     Some (foldl (\<lambda>prev curr. if stepNumber prev < stepNumber curr then prev else curr) s rest)"

definition treeData :: "(nat \<Rightarrow> string) \<Rightarrow> ProcessStep list \<Rightarrow> DisplayNode option" where
  "treeData rnd steps =
     (case firstStep steps of
        None \<Rightarrow> None
      | Some first \<Rightarrow> Some (fst (buildTree rnd steps first {} 0)))"

subsection \<open>Vocabulary for the properties\<close>

text \<open>
  The height of a projected tree, its nodes, and what makes a node a loop node: the
  synthetic identifier, the rewritten label and role, and no children. \<open>slack\<close> is the
  one extra level of a start step that is not a step of the list.
\<close>

fun height :: "DisplayNode \<Rightarrow> nat" where
  "height (DisplayNode i d t l cs) = Suc (foldr max (map height cs) 0)"

fun display_nodes :: "DisplayNode \<Rightarrow> DisplayNode list" where
  "display_nodes (DisplayNode i d t l cs) =
     DisplayNode i d t l cs # concat (map display_nodes cs)"

definition is_loop_node :: "DisplayNode \<Rightarrow> bool" where
  "is_loop_node n \<longleftrightarrow>
     (case dn_data n of
        StepData s \<Rightarrow> startsWith (dn_id n) (''loop-'' @ step_id s @ ''-'') \<and>
                      action s = loop_arrow @ '' Loop to Step '' @ string_of_int (stepNumber s) \<and>
                      role s = ''Process Cycle'' \<and> dn_children n = []
      | ActionOnly a \<Rightarrow> False)"

text \<open>
  The loop nodes of a tree, in depth-first pre-order, and the suffix of a loop node: what
  follows \<open>loop-<id>-\<close> in its identifier.
\<close>

definition loop_nodes :: "DisplayNode \<Rightarrow> DisplayNode list" where
  "loop_nodes t = filter is_loop_node (display_nodes t)"

definition loop_suffix :: "DisplayNode \<Rightarrow> string" where
  "loop_suffix n =
     (case dn_data n of
        StepData s \<Rightarrow> drop (length (''loop-'' @ step_id s @ ''-'')) (dn_id n)
      | ActionOnly a \<Rightarrow> [])"

text \<open>
  The number a loop node's label names: the label is the arrow U+21A9 and
  \<open>Loop to Step\<close>, followed by a decimal numeral, which \<open>int_of_string\<close> reads.
\<close>

definition digit_value :: "char \<Rightarrow> nat" where
  "digit_value c = of_char c - 48"

definition nat_of_string :: "string \<Rightarrow> nat" where
  "nat_of_string s = foldl (\<lambda>a c. 10 * a + digit_value c) 0 s"

definition int_of_string :: "string \<Rightarrow> int" where
  "int_of_string s =
     (case s of
        [] \<Rightarrow> 0
      | c # r \<Rightarrow> if c = CHR ''-'' then - int (nat_of_string r) else int (nat_of_string s))"

definition loop_label_prefix :: string where
  "loop_label_prefix = [CHR 0xE2, CHR 0x86, CHR 0xA9] @ '' Loop to Step ''"

definition loop_target_number :: "DisplayNode \<Rightarrow> int option" where
  "loop_target_number n =
     (case dn_data n of
        StepData s \<Rightarrow>
          if startsWith (action s) loop_label_prefix
          then Some (int_of_string (drop (length loop_label_prefix) (action s)))
          else None
      | ActionOnly a \<Rightarrow> None)"

text \<open>
  The identifiers a projection can give a node that is not a loop node: the identifier
  of a step, or \<open>missing-\<close> and the identifier of a branch.
\<close>

definition native_node :: "ProcessStep list \<Rightarrow> DisplayNode \<Rightarrow> bool" where
  "native_node steps n \<longleftrightarrow>
     is_loop_node n \<or> startsWith (dn_id n) ''missing-'' \<or> dn_id n \<in> step_ids steps"

definition slack :: "ProcessStep list \<Rightarrow> ProcessStep \<Rightarrow> nat" where
  "slack steps step = (if step_id step \<in> step_ids steps then 0 else 1)"

text \<open>
  A dangling branch: its target is a non-empty string that is the identifier of no step
  of the list.
\<close>

definition dangling :: "ProcessStep list \<Rightarrow> ProcessBranch \<Rightarrow> bool" where
  "dangling steps b \<longleftrightarrow> truthy (targetStepId b) \<and> target_of b \<notin> step_ids steps"

text \<open>Step 1 decides to go to step 2, and step 2 decides to go back to step 1.\<close>

definition cyclic_steps :: "ProcessStep list" where
  "cyclic_steps =
     [\<lparr>step_id = ''s1'', stepNumber = 1, step_type = Decision, action = ''First check'',
       step_description = [], role = ''User'', isEndState = False,
       branches = Some [\<lparr>branch_id = ''b1'', branch_label = ''Go on'', targetStepId = Some ''s2''\<rparr>]\<rparr>,
      \<lparr>step_id = ''s2'', stepNumber = 2, step_type = Decision, action = ''Second check'',
       step_description = [], role = ''User'', isEndState = False,
       branches = Some [\<lparr>branch_id = ''b2'', branch_label = ''Back'', targetStepId = Some ''s1''\<rparr>]\<rparr>]"

text \<open>
  Step 12 decides to go to step 13, and both branches of step 13 go back to step 12. A
  random source whose draws are \<open>x\<close>, \<open>xx\<close>, \<open>xxx\<close>, ...: no two are equal.
\<close>

definition twice_back_steps :: "ProcessStep list" where
  "twice_back_steps =
     [\<lparr>step_id = ''s1'', stepNumber = 12, step_type = Decision, action = ''First check'',
       step_description = [], role = ''User'', isEndState = False,
       branches = Some [\<lparr>branch_id = ''b1'', branch_label = ''Go on'', targetStepId = Some ''s2''\<rparr>]\<rparr>,
      \<lparr>step_id = ''s2'', stepNumber = 13, step_type = Decision, action = ''Second check'',
       step_description = [], role = ''User'', isEndState = False,
       branches = Some [\<lparr>branch_id = ''b2'', branch_label = ''Back'', targetStepId = Some ''s1''\<rparr>,
                        \<lparr>branch_id = ''b3'', branch_label = ''Again'', targetStepId = Some ''s1''\<rparr>]\<rparr>]"

definition distinct_draws :: "nat \<Rightarrow> string" where
  "distinct_draws k = replicate (Suc k) (CHR ''x'')"

section \<open>Mesh-to-tree projection (buildSystemTree)\<close>

text \<open>
  Modelled from the spec: the declarations of the types \<open>SystemActor\<close>,
  \<open>SystemInteraction\<close> and \<open>SystemsViewData\<close>, which the function imports from a
  types module that is not among the source files. Section 3 of the spec gives an actor
  an id, a display name and a kind (person, system or external), and an interaction an
  id, a source actor id, a target actor id, an activity label and a payload label; the
  function reads them as \<open>actor.id\<close>, \<open>actor.name\<close>, \<open>actor.type\<close>,
  \<open>link.source\<close>, \<open>link.target\<close>, \<open>link.data\<close>, and the data as
  \<open>data.actors\<close> and \<open>data.interactions\<close>. \<open>source\<close> and \<open>target\<close> are
  actor identifiers; the function also accepts an object with an \<open>id\<close> in their
  place, which the model leaves out. The properties of an actor are the fields
  \<open>actor_id\<close>, \<open>actor_name\<close>, \<open>actor_type\<close>; those of an interaction carry the
  prefix \<open>link_\<close>, after the name the traversal gives an interaction.
\<close>

datatype actor_type = Person | System | External

record SystemActor =
  actor_id :: string
  actor_name :: string
  actor_type :: actor_type

record SystemInteraction =
  link_id :: string
  link_source :: string
  link_target :: string
  link_activity :: string
  link_data :: string

record SystemsViewData =
  actors :: "SystemActor list"
  interactions :: "SystemInteraction list"

text \<open>
  The node \<open>buildNode\<close> returns: \<open>id\<close>, \<open>label\<close>, \<open>nodeType\<close>, \<open>nature\<close>,
  \<open>source\<close>, \<open>description\<close>, \<open>children\<close>, and the \<open>linkLabel\<close> that the
  parent writes into each child.
\<close>

datatype nodeType = InfoNode | ProcessNode

datatype SystemTreeNode =
  SystemTreeNode (tn_id: string) (tn_label: string) (tn_nodeType: nodeType)
    (tn_nature: string) (tn_source: string) (tn_description: actor_type)
    (tn_linkLabel: "string option") (tn_children: "SystemTreeNode list")

text \<open>
  The two prefixes of a link label: the arrows U+2192 and U+2190 as their UTF-8 bytes,
  each followed by a space.
\<close>

definition arrow_out :: string where
  "arrow_out = [CHR 0xE2, CHR 0x86, CHR 0x92, CHR '' '']"

definition arrow_in :: string where
  "arrow_in = [CHR 0xE2, CHR 0x86, CHR 0x90, CHR '' '']"

text \<open>
  \<^verbatim>\<open>
  const relevantActors = new Set<string>();
  if (dataFilter) {
      data.interactions.forEach(i => {
          if (i.data === dataFilter) {
              relevantActors.add(typeof i.source === 'object' ? ... : i.source);
              relevantActors.add(typeof i.target === 'object' ? ... : i.target);
          }
      });
  }
  \<close>
  The filter is an optional string; \<open>if (dataFilter)\<close> is \<open>truthy\<close>.
\<close>

definition relevantActors :: "SystemsViewData \<Rightarrow> string option \<Rightarrow> string set" where
  "relevantActors data dataFilter =
     (if truthy dataFilter
      then foldl (\<lambda>r i. if Some (link_data i) = dataFilter
                          then insert (link_target i) (insert (link_source i) r) else r)
             {} (interactions data)
      else {})"

text \<open>
  \<^verbatim>\<open>
  const visited = new Set<string>();
  visited.add(rootId);

  const buildNode = (actor: SystemActor): any => {
      const childrenActors: { actor: SystemActor, interaction: string }[] = [];
      data.interactions.forEach(link => {
           if (dataFilter && link.data !== dataFilter) return;
           const s = typeof link.source === 'object' ? ... : link.source;
           const t = typeof link.target === 'object' ? ... : link.target;
           let targetId: string | null = null;
           let prefix = "";
           if (s === actor.id && !visited.has(t)) { targetId = t; prefix = "<U+2192> "; }
           else if (t === actor.id && !visited.has(s)) { targetId = s; prefix = "<U+2190> "; }
           if (targetId) {
               const targetActor = data.actors.find(a => a.id === targetId);
               if (targetActor) {
                   if (!dataFilter || relevantActors.has(targetId)) {
                       visited.add(targetId);
                       childrenActors.push({ actor: targetActor, interaction: `${prefix}${link.data}` });
                   }
               }
           }
      });
      return {
          id: actor.id, label: actor.name,
          nodeType: actor.type === 'person' ? 'info' : 'process',
          nature: 'fact', source: 'ai', description: actor.type,
          children: childrenActors.map(c => {
              const node = buildNode(c.actor);
              node.linkLabel = c.interaction;
              return node;
          })
      };
  };
  \<close>
  \<open>visited\<close> is one set that every call of \<open>buildNode\<close> reads and extends, so the
  model passes it through each call and returns it. \<open>scanLinks\<close> is the \<open>forEach\<close>
  over the interactions that remain, for one actor: it returns the children found and the
  visited set. \<open>buildNode_children\<close> is the \<open>map\<close> over \<open>childrenActors\<close>.
\<close>

fun scanLinks ::
  "SystemsViewData \<Rightarrow> string option \<Rightarrow> string set \<Rightarrow> SystemActor \<Rightarrow> SystemInteraction list \<Rightarrow>
   string set \<Rightarrow> (SystemActor \<times> string) list \<times> string set" where
  "scanLinks data dataFilter relevant actor [] visited = ([], visited)"
| "scanLinks data dataFilter relevant actor (link # rest) visited =
     (if truthy dataFilter \<and> Some (link_data link) \<noteq> dataFilter
      then scanLinks data dataFilter relevant actor rest visited
      else
        (let s = link_source link;
             t = link_target link;
             (targetId, prefix) =
               (if s = actor_id actor \<and> t \<notin> visited then (Some t, arrow_out)
                else if t = actor_id actor \<and> s \<notin> visited then (Some s, arrow_in)
                else (None, []))
         in case (if truthy targetId then targetId else None) of
              None \<Rightarrow> scanLinks data dataFilter relevant actor rest visited
            | Some tid \<Rightarrow>
                (case find (\<lambda>a. actor_id a = tid) (actors data) of
                   None \<Rightarrow> scanLinks data dataFilter relevant actor rest visited
                 | Some targetActor \<Rightarrow>
                     if \<not> truthy dataFilter \<or> tid \<in> relevant
                     then (case scanLinks data dataFilter relevant actor rest (insert tid visited) of
                             (childrenActors, visited') \<Rightarrow>
                               ((targetActor, prefix @ link_data link) # childrenActors, visited'))
                     else scanLinks data dataFilter relevant actor rest visited)))"

definition treeNode :: "SystemActor \<Rightarrow> SystemTreeNode list \<Rightarrow> SystemTreeNode" where
  "treeNode actor kids =
     SystemTreeNode (actor_id actor) (actor_name actor)
       (if actor_type actor = Person then InfoNode else ProcessNode)
       ''fact'' ''ai'' (actor_type actor) None kids"

definition set_linkLabel :: "string \<Rightarrow> SystemTreeNode \<Rightarrow> SystemTreeNode" where
  "set_linkLabel l n =
     SystemTreeNode (tn_id n) (tn_label n) (tn_nodeType n) (tn_nature n) (tn_source n)
       (tn_description n) (Some l) (tn_children n)"

definition actor_ids :: "SystemsViewData \<Rightarrow> string set" where
  "actor_ids data = actor_id ` set (actors data)"

text \<open>
  What the scan of one actor does to the visited set: it only grows, by identifiers of
  actors, and it grows exactly when a child is found.
\<close>

lemma find_actor_id: "find (\<lambda>a. actor_id a = tid) (actors data) = Some a \<Longrightarrow> tid \<in> actor_ids data \<and> actor_id a = tid"
  by (auto simp: find_Some_iff actor_ids_def)

lemma scanLinks_visited:
  "scanLinks data f r actor links visited = (cs, v) \<Longrightarrow>
     visited \<subseteq> v \<and> v \<subseteq> visited \<union> actor_ids data \<and> (cs = [] \<longrightarrow> v = visited)
     \<and> (cs \<noteq> [] \<longrightarrow> (\<exists>x \<in> v. x \<notin> visited))"
proof (induction links arbitrary: visited cs v)
  case Nil
  then show ?case by simp
next
  case (Cons link rest)
  show ?case
    using Cons.prems Cons.IH [of visited cs v]
      Cons.IH [of "insert (link_target link) visited"]
      Cons.IH [of "insert (link_source link) visited"]
    by (auto simp: Let_def truthy_def split: if_splits option.splits prod.splits dest!: find_actor_id)
qed

text \<open>
  The recursion is nested: the visited set a call receives is the one its preceding
  sibling returned. It ends because every call below an actor follows a scan that found a
  child, and so has strictly fewer actors left to visit.
\<close>

function buildNode ::
    "SystemsViewData \<Rightarrow> string option \<Rightarrow> string set \<Rightarrow> SystemActor \<Rightarrow> string set \<Rightarrow>
     SystemTreeNode \<times> string set"
  and buildNode_children ::
    "SystemsViewData \<Rightarrow> string option \<Rightarrow> string set \<Rightarrow> (SystemActor \<times> string) list \<Rightarrow>
     string set \<Rightarrow> SystemTreeNode list \<times> string set" where
  "buildNode data dataFilter relevant actor visited =
     (case scanLinks data dataFilter relevant actor (interactions data) visited of
        (childrenActors, visited1) \<Rightarrow>
          (case buildNode_children data dataFilter relevant childrenActors visited1 of
             (kids, visited2) \<Rightarrow> (treeNode actor kids, visited2)))"
| "buildNode_children data dataFilter relevant [] visited = ([], visited)"
| "buildNode_children data dataFilter relevant ((actor, interaction) # rest) visited =
     (case buildNode data dataFilter relevant actor visited of
        (built, visited1) \<Rightarrow>
          (case buildNode_children data dataFilter relevant rest visited1 of
             (others, visited2) \<Rightarrow> (set_linkLabel interaction built # others, visited2)))"
  by pat_completeness auto

lemma visited_grows:
  "buildNode_buildNode_children_dom (Inl (data, f, r, actor, visited)) \<Longrightarrow>
     visited \<subseteq> snd (buildNode data f r actor visited)"
  "buildNode_buildNode_children_dom (Inr (data, f, r, cs, visited)) \<Longrightarrow>
     visited \<subseteq> snd (buildNode_children data f r cs visited)"
proof (induction rule: buildNode_buildNode_children.pinduct)
  case (1 data dataFilter relevant actor visited)
  obtain cs v1 where s: "scanLinks data dataFilter relevant actor (interactions data) visited = (cs, v1)"
    by (cases "scanLinks data dataFilter relevant actor (interactions data) visited")
  have "visited \<subseteq> v1" using scanLinks_visited [OF s] by blast
  moreover have "v1 \<subseteq> snd (buildNode_children data dataFilter relevant cs v1)"
    using "1.IH" [OF s [symmetric]] .
  ultimately show ?case using s "1.hyps"
    by (auto simp: buildNode.psimps split: prod.splits)
next
  case (2 data dataFilter relevant visited)
  then show ?case by (simp add: buildNode_children.psimps)
next
  case (3 data dataFilter relevant actor interaction rest visited)
  obtain n v1 where b: "buildNode data dataFilter relevant actor visited = (n, v1)"
    by (cases "buildNode data dataFilter relevant actor visited")
  have "visited \<subseteq> v1" using "3.IH"(1) b by simp
  moreover have "v1 \<subseteq> snd (buildNode_children data dataFilter relevant rest v1)"
    using "3.IH"(2) [OF b [symmetric]] .
  ultimately show ?case using b "3.hyps"
    by (auto simp: buildNode_children.psimps split: prod.splits)
qed

lemma card_unvisited_mono:
  "visited \<subseteq> v \<Longrightarrow> card (actor_ids data - v) \<le> card (actor_ids data - visited)"
  by (rule card_mono) (auto simp: actor_ids_def)

lemma card_unvisited_less:
  assumes "visited \<subseteq> v" and "v \<subseteq> visited \<union> actor_ids data" and "x \<in> v" and "x \<notin> visited"
  shows "card (actor_ids data - v) < card (actor_ids data - visited)"
proof (rule psubset_card_mono)
  show "finite (actor_ids data - visited)" by (simp add: actor_ids_def)
  show "actor_ids data - v \<subset> actor_ids data - visited" using assms by blast
qed

termination buildNode
proof (relation "measures
    [\<lambda>x. case x of
        Inl (data, f, r, actor, visited) \<Rightarrow> card (actor_ids data - visited)
      | Inr (data, f, r, cs, visited) \<Rightarrow> card (actor_ids data - visited),
     \<lambda>x. case x of Inl _ \<Rightarrow> 1 | Inr (data, f, r, cs, visited) \<Rightarrow> 2 * length cs]", goal_cases)
  case 1
  show ?case by simp
next
  case (2 data dataFilter relevant actor visited x y)
  then have s: "scanLinks data dataFilter relevant actor (interactions data) visited = (x, y)"
    by simp
  show ?case
  proof (cases "x = []")
    case True
    then have "y = visited" using scanLinks_visited [OF s] by blast
    then show ?thesis using True by simp
  next
    case False
    then obtain z where "z \<in> y" "z \<notin> visited" using scanLinks_visited [OF s] by blast
    then have "card (actor_ids data - y) < card (actor_ids data - visited)"
      using scanLinks_visited [OF s] card_unvisited_less [of visited y data z] by blast
    then show ?thesis by simp
  qed
next
  case (3 data dataFilter relevant actor interaction rest visited)
  show ?case by simp
next
  case (4 data dataFilter relevant actor interaction rest visited x y)
  then have "visited \<subseteq> y"
    using visited_grows(1) [of data dataFilter relevant actor visited] by (metis snd_conv)
  then have "card (actor_ids data - y) \<le> card (actor_ids data - visited)"
    by (rule card_unvisited_mono)
  then show ?case by auto
qed

declare buildNode.simps [simp del]

text \<open>
  \<^verbatim>\<open>
  const buildSystemTree = (data: SystemsViewData, rootId: string, dataFilter?: string) => {
      const rootActor = data.actors.find(a => a.id === rootId);
      if (!rootActor) return null;
      ...
      return buildNode(rootActor);
  };
  \<close>
\<close>

definition buildSystemTree :: "SystemsViewData \<Rightarrow> string \<Rightarrow> string option \<Rightarrow> SystemTreeNode option" where
  "buildSystemTree data rootId dataFilter =
     (case find (\<lambda>a. actor_id a = rootId) (actors data) of
        None \<Rightarrow> None
      | Some rootActor \<Rightarrow>
          Some (fst (buildNode data dataFilter (relevantActors data dataFilter) rootActor {rootId})))"

subsection \<open>Vocabulary for the properties\<close>

text \<open>
  The actor identifiers of a tree in pre-order, its nodes, and its edges as triples of
  parent identifier, child identifier and the child's link label. \<open>descendants_of b t\<close>
  are the identifiers strictly below the nodes of \<open>t\<close> with identifier \<open>b\<close>.
\<close>

fun tree_ids :: "SystemTreeNode \<Rightarrow> string list" where
  "tree_ids (SystemTreeNode i l nt na s d ll cs) = i # concat (map tree_ids cs)"

fun tree_edges :: "SystemTreeNode \<Rightarrow> (string \<times> string \<times> string option) list" where
  "tree_edges (SystemTreeNode i l nt na s d ll cs) =
     map (\<lambda>c. (i, tn_id c, tn_linkLabel c)) cs @ concat (map tree_edges cs)"

fun tree_nodes :: "SystemTreeNode \<Rightarrow> SystemTreeNode list" where
  "tree_nodes (SystemTreeNode i l nt na s d ll cs) =
     SystemTreeNode i l nt na s d ll cs # concat (map tree_nodes cs)"

definition descendants_of :: "string \<Rightarrow> SystemTreeNode \<Rightarrow> string list" where
  "descendants_of b t =
     concat (map (\<lambda>n. concat (map tree_ids (tn_children n)))
                 (filter (\<lambda>n. tn_id n = b) (tree_nodes t)))"

text \<open>
  An interaction matches the filter when no filter is active or its payload is the
  filter. An edge comes from an interaction when the interaction joins the two actors and
  the label is the arrow of its direction followed by its payload. The endpoints of a
  payload are the sources and targets of the interactions that carry it.
\<close>

definition matches :: "string option \<Rightarrow> SystemInteraction \<Rightarrow> bool" where
  "matches dataFilter link \<longleftrightarrow> \<not> truthy dataFilter \<or> Some (link_data link) = dataFilter"

definition edge_of_link :: "string \<times> string \<times> string option \<Rightarrow> SystemInteraction \<Rightarrow> bool" where
  "edge_of_link e link =
     (case e of (p, c, l) \<Rightarrow>
        (link_source link = p \<and> link_target link = c \<and> l = Some (arrow_out @ link_data link)) \<or>
        (link_target link = p \<and> link_source link = c \<and> l = Some (arrow_in @ link_data link)))"

definition from_matching_link :: "SystemsViewData \<Rightarrow> string option \<Rightarrow> string \<times> string \<times> string option \<Rightarrow> bool" where
  "from_matching_link data dataFilter e =
     list_ex (\<lambda>link. matches dataFilter link \<and> edge_of_link e link) (interactions data)"

definition endpoints :: "SystemsViewData \<Rightarrow> string \<Rightarrow> string set" where
  "endpoints data f =
     set (concat (map (\<lambda>i. [link_source i, link_target i])
                      (filter (\<lambda>i. link_data i = f) (interactions data))))"

text \<open>
  What one interaction contributes to the scan of an actor: nothing, or a child (the
  actor found, its identifier and the link label).
\<close>

definition link_child ::
  "SystemsViewData \<Rightarrow> string option \<Rightarrow> string set \<Rightarrow> SystemActor \<Rightarrow> string set \<Rightarrow>
   SystemInteraction \<Rightarrow> (SystemActor \<times> string \<times> string) option" where
  "link_child data dataFilter relevant actor visited link =
     (if \<not> matches dataFilter link then None
      else if link_source link = actor_id actor \<and> link_target link \<notin> visited
      then (if link_target link = [] then None
            else case find (\<lambda>a. actor_id a = link_target link) (actors data) of
                   None \<Rightarrow> None
                 | Some ta \<Rightarrow>
                     if \<not> truthy dataFilter \<or> link_target link \<in> relevant
                     then Some (ta, link_target link, arrow_out @ link_data link) else None)
      else if link_target link = actor_id actor \<and> link_source link \<notin> visited
      then (if link_source link = [] then None
            else case find (\<lambda>a. actor_id a = link_source link) (actors data) of
                   None \<Rightarrow> None
                 | Some ta \<Rightarrow>
                     if \<not> truthy dataFilter \<or> link_source link \<in> relevant
                     then Some (ta, link_source link, arrow_in @ link_data link) else None)
      else None)"

definition child_ids :: "(SystemActor \<times> string) list \<Rightarrow> string list" where
  "child_ids cs = map (\<lambda>c. actor_id (fst c)) cs"

text \<open>The spec's example: A sends X to B, B sends X to C, A sends Y to C.\<close>

definition actorA :: SystemActor where
  "actorA = \<lparr>actor_id = ''A'', actor_name = ''Actor A'', actor_type = Person\<rparr>"
definition actorB :: SystemActor where
  "actorB = \<lparr>actor_id = ''B'', actor_name = ''Actor B'', actor_type = System\<rparr>"
definition actorC :: SystemActor where
  "actorC = \<lparr>actor_id = ''C'', actor_name = ''Actor C'', actor_type = External\<rparr>"

definition mesh_example :: SystemsViewData where
  "mesh_example =
     \<lparr>actors = [actorA, actorB, actorC],
      interactions =
        [\<lparr>link_id = ''i1'', link_source = ''A'', link_target = ''B'',
          link_activity = ''sends'', link_data = ''X''\<rparr>,
         \<lparr>link_id = ''i2'', link_source = ''B'', link_target = ''C'',
          link_activity = ''sends'', link_data = ''X''\<rparr>,
         \<lparr>link_id = ''i3'', link_source = ''A'', link_target = ''C'',
          link_activity = ''sends'', link_data = ''Y''\<rparr>]\<rparr>"

section \<open>Properties of the history manager\<close>

lemma commit_index:
  "historyIndex (commitToHistory d ds now s) = int (length (history (commitToHistory d ds now s))) - 1"
  by (simp add: commitToHistory_def Let_def)

lemma commit_last:
  "history (commitToHistory d ds now s) \<noteq> [] \<and> last (history (commitToHistory d ds now s)) = \<lparr>entry_data = d, entry_description = ds, timestamp = now\<rparr>"
proof -
  let ?e = "\<lparr>entry_data = d, entry_description = ds, timestamp = now\<rparr>"
  let ?c = "slice0 (historyIndex s + 1) (history s)"
  have h: "history (commitToHistory d ds now s) = (if length (?c @ [?e]) > 10 then tl (?c @ [?e]) else ?c @ [?e])"
    by (simp add: commitToHistory_def Let_def)
  show ?thesis
  proof (cases "length (?c @ [?e]) > 10")
    case True
    then obtain x xs where c: "?c = x # xs" by (cases ?c) auto
    with True have "xs \<noteq> []" by auto
    then show ?thesis using h True c by simp
  next
    case False
    then show ?thesis using h by simp
  qed
qed

lemma commit_at_end:
  "historyIndex s = int (length (history s)) - 1 \<Longrightarrow> 
   history (commitToHistory d ds now s) = (let h = history s @ [\<lparr>entry_data = d, entry_description = ds, timestamp = now\<rparr>] in if length h > 10 then tl h else h)"
  by (auto simp: commitToHistory_def Let_def slice0_def)

lemma commit_all_snoc: "commit_all (es @ [e]) s = commitToHistory (entry_data e) (entry_description e) (timestamp e) (commit_all es s)"
  by (simp add: commit_all_def)

lemma commit_all_history:
  "history (commit_all es initial_state) = drop (length es - 10) es \<and> historyIndex (commit_all es initial_state) = int (length (history (commit_all es initial_state))) - 1"
proof (induction es rule: rev_induct)
  case Nil
  then show ?case by (simp add: commit_all_def initial_state_def)
next
  case (snoc e es)
  let ?s = "commit_all es initial_state"
  have e: "\<lparr>entry_data = entry_data e, entry_description = entry_description e, timestamp = timestamp e\<rparr> = e"
    by simp
  have h: "history (commit_all (es @ [e]) initial_state) =
        (let h = history ?s @ [e] in if length h > 10 then tl h else h)"
    using snoc by (simp add: commit_all_snoc commit_at_end e)
  have "history (commit_all (es @ [e]) initial_state) = drop (length (es @ [e]) - 10) (es @ [e])"
  proof (cases "length es < 10")
    case True
    then show ?thesis using h snoc by simp
  next
    case False
    then have "Suc (length es - 10) = length es - 9" by arith
    then have "drop (length es - 10) (tl es) = drop (length es - 9) es"
      by (simp add: drop_Suc [symmetric])
    with False show ?thesis using h snoc by (simp add: tl_drop)
  qed
  then show ?case by (simp add: commit_all_snoc commit_index)
qed

lemma history_inv_initial: "history_inv initial_state"
  by (simp add: history_inv_def initial_state_def)

lemma history_inv_commit: "history_inv s \<Longrightarrow> history_inv (commitToHistory d ds now s)"
  by (auto simp: history_inv_def commitToHistory_def Let_def slice0_def)

lemma history_inv_restore: "history_inv s \<Longrightarrow> history_inv (restoreFromHistory i s)"
  by (auto simp: history_inv_def restoreFromHistory_def)

lemma history_inv_run_ops: "history_inv s \<Longrightarrow> history_inv (run_ops ops s)"
  unfolding run_ops_def
proof (induction ops arbitrary: s)
  case Nil
  then show ?case by simp
next
  case (Cons op ops)
  have "history_inv (run_op op s)"
    using Cons.prems by (cases op) (simp_all add: history_inv_commit history_inv_restore)
  then show ?case using Cons.IH by simp
qed

text \<open>
  Claim C3. In a state reached from the initial one by commits and restores, when the
  current index is below the last position (after an undo), a commit keeps the entries
  up to the current index, drops every entry after it and appends the new entry. After
  commit, commit, undo, commit from the empty history the stack is the first and the
  third entry: two entries, the second commit's snapshot is not among them.
\<close>

theorem commit_discards_redo_branch:
  fixes s :: "'d app_state"
  assumes reach: "s = run_ops ops initial_state"
    and undone: "historyIndex s < int (length (history s)) - 1"
  shows "history (commitToHistory d ds now s) =
           take (nat (historyIndex s + 1)) (history s) @
             [\<lparr>entry_data = d, entry_description = ds, timestamp = now\<rparr>]
         \<and> (let s4 = commitToHistory d3 ds3 t3 (undo (commitToHistory d2 ds2 t2
                       (commitToHistory d1 ds1 t1 (initial_state :: 'd app_state))))
            in history s4 = [\<lparr>entry_data = d1, entry_description = ds1, timestamp = t1\<rparr>,
                            \<lparr>entry_data = d3, entry_description = ds3, timestamp = t3\<rparr>]
               \<and> length (history s4) = 2 \<and> historyIndex s4 = 1 \<and> mindMap s4 = Some d3)"
proof -
  have inv: "history_inv s"
    using reach history_inv_initial history_inv_run_ops by blast
  have "0 \<le> historyIndex s + 1" using inv by (simp add: history_inv_def)
  then have cur: "slice0 (historyIndex s + 1) (history s) = take (nat (historyIndex s + 1)) (history s)"
    by (simp add: slice0_def)
  have "nat (historyIndex s + 1) < length (history s)" using undone inv
    unfolding history_inv_def by arith
  moreover have "length (history s) \<le> 10" using inv by (simp add: history_inv_def)
  ultimately have "\<not> length (take (nat (historyIndex s + 1)) (history s) @ [e]) > 10" for e :: "'d HistoryEntry"
    by simp
  then have general: "history (commitToHistory d ds now s) =
           take (nat (historyIndex s + 1)) (history s) @
             [\<lparr>entry_data = d, entry_description = ds, timestamp = now\<rparr>]"
    using cur by (auto simp add: commitToHistory_def Let_def)
  have example: "(let s4 = commitToHistory d3 ds3 t3 (undo (commitToHistory d2 ds2 t2
                       (commitToHistory d1 ds1 t1 (initial_state :: 'd app_state))))
            in history s4 = [\<lparr>entry_data = d1, entry_description = ds1, timestamp = t1\<rparr>,
                            \<lparr>entry_data = d3, entry_description = ds3, timestamp = t3\<rparr>]
               \<and> length (history s4) = 2 \<and> historyIndex s4 = 1 \<and> mindMap s4 = Some d3)"
    by (simp add: commitToHistory_def undo_def restoreFromHistory_def initial_state_def
        slice0_def Let_def)
  show ?thesis using general example by blast
qed

theorem commit_discards_redo_branch_witness:
  "(let s = run_ops [Commit (1::nat) ''first'' 100, Commit 2 ''second'' 200, Restore 0] initial_state
    in historyIndex s < int (length (history s)) - 1
       \<and> history s = [\<lparr>entry_data = 1, entry_description = ''first'', timestamp = 100\<rparr>,
                       \<lparr>entry_data = 2, entry_description = ''second'', timestamp = 200\<rparr>]
       \<and> history (commitToHistory 3 ''third'' 300 s) =
           [\<lparr>entry_data = 1, entry_description = ''first'', timestamp = 100\<rparr>,
            \<lparr>entry_data = 3, entry_description = ''third'', timestamp = 300\<rparr>])"
proof -
  let ?s = "run_ops [Commit (1::nat) ''first'' 100, Commit 2 ''second'' 200, Restore 0] initial_state"
  have h: "history ?s = [\<lparr>entry_data = 1, entry_description = ''first'', timestamp = 100\<rparr>,
                       \<lparr>entry_data = 2, entry_description = ''second'', timestamp = 200\<rparr>]"
    and i: "historyIndex ?s = 0"
    by (simp_all add: run_ops_def commitToHistory_def restoreFromHistory_def initial_state_def
        slice0_def Let_def)
  have u: "historyIndex ?s < int (length (history ?s)) - 1"
    using h i by simp
  from commit_discards_redo_branch [OF refl u, of 3 "''third''" 300]
  have "history (commitToHistory 3 ''third'' 300 ?s) =
           take (nat (historyIndex ?s + 1)) (history ?s) @
             [\<lparr>entry_data = 3, entry_description = ''third'', timestamp = 300\<rparr>]"
    by blast
  then show ?thesis using h i u by (simp add: Let_def)
qed

text \<open>
  Claim C4. The stack of every reachable state has at most ten entries. Committing the
  entries \<open>es\<close> one after the other from the empty history leaves the last ten of
  them, so eleven commits leave entries two to eleven: the oldest is the one evicted.
  After every commit the stack ends with the new entry and the index is its position.
\<close>

theorem history_capacity:
  fixes s :: "'d app_state" and e1 :: "'d HistoryEntry"
  shows "length (history (run_ops ops (initial_state :: 'd app_state))) \<le> 10
    \<and> history (commit_all es (initial_state :: 'd app_state)) = drop (length es - 10) es
    \<and> history (commit_all [e1, e2, e3, e4, e5, e6, e7, e8, e9, e10, e11] initial_state) =
         [e2, e3, e4, e5, e6, e7, e8, e9, e10, e11]
    \<and> history (commitToHistory d ds now s) \<noteq> []
    \<and> last (history (commitToHistory d ds now s)) =
         \<lparr>entry_data = d, entry_description = ds, timestamp = now\<rparr>
    \<and> historyIndex (commitToHistory d ds now s) =
         int (length (history (commitToHistory d ds now s))) - 1"
proof -
  have "history_inv (run_ops ops (initial_state :: 'd app_state))"
    using history_inv_initial history_inv_run_ops by blast
  then have a: "length (history (run_ops ops (initial_state :: 'd app_state))) \<le> 10"
    by (simp add: history_inv_def)
  have b: "history (commit_all es (initial_state :: 'd app_state)) = drop (length es - 10) es"
    using commit_all_history by blast
  have c: "history (commit_all [e1, e2, e3, e4, e5, e6, e7, e8, e9, e10, e11] initial_state) =
         [e2, e3, e4, e5, e6, e7, e8, e9, e10, e11]"
    using commit_all_history [of "[e1, e2, e3, e4, e5, e6, e7, e8, e9, e10, e11]"] by simp
  show ?thesis using a b c commit_last [of d ds now s] commit_index [of d ds now s] by blast
qed

section \<open>Properties of the document tree\<close>

subsection \<open>Lookups of an absent identifier\<close>



lemma node_ids_hd: "node_id n \<in> set (node_ids n)"
  by (cases n) simp

lemma find_absent:
  fixes root :: "'a MindMapData" and r :: "'a MindMapData"
  shows "targetId \<notin> set (node_ids root) \<Longrightarrow> findNodeAndPath root targetId p = None"
    and "targetId \<notin> set (concat (map node_ids cs)) \<Longrightarrow> findNodeAndPath_loop r cs targetId p = None"
proof (induction root targetId p and r cs targetId p rule: findNodeAndPath_findNodeAndPath_loop.induct)
  case (1 i l w f fs x ch targetId currentPath)
  then show ?case by (cases ch) auto
next
  case (2 root targetId currentPath)
  then show ?case by simp
next
  case (3 root child rest targetId currentPath)
  then show ?case using node_ids_hd [of child] by auto
qed

text \<open>
  \<open>assignAt\<close> finds a node exactly when \<open>findNodeAndPath\<close> does, so the fallback of
  \<open>updateNodeInTree\<close> for a missing node is never taken after a successful search.
\<close>

lemma assignAt_found:
  fixes root :: "'a MindMapData" and cs :: "'a MindMapData list"
  shows "(assignAt u t root = None) = (findNodeAndPath root t p = None)"
    and "(assignAt_loop u t cs = None) = (findNodeAndPath_loop r cs t p = None)"
proof (induction root t p and r cs t p rule: findNodeAndPath_findNodeAndPath_loop.induct)
  case (1 i l w f fs x ch targetId currentPath)
  then show ?case by (cases ch) auto
next
  case (2 root targetId currentPath)
  then show ?case by simp
next
  case (3 root child rest targetId currentPath)
  then show ?case 
    by (cases child) (auto split: option.splits)
qed

subsection \<open>Hierarchical numbering\<close>









subsection \<open>Dependency propagation\<close>

lemma check_idem: "checkDependencies (checkDependencies T c) c = checkDependencies T c"
proof (induction T)
  case (MindMapData i l w f fs x ch)
  have kids: "map_option (map (\<lambda>n. checkDependencies n c)) (map_option (map (\<lambda>n. checkDependencies n c)) ch)
      = map_option (map (\<lambda>n. checkDependencies n c)) ch"
  proof (cases ch)
    case None
    then show ?thesis by simp
  next
    case (Some cs)
    then have "\<And>n. n \<in> set cs \<Longrightarrow> checkDependencies (checkDependencies n c) c = checkDependencies n c"
      using MindMapData.IH by simp
    then show ?thesis using Some by simp
  qed
  show ?case
    by (cases fs) (simp_all add: Let_def kids)
qed

lemma check_flags_watchers:
  "n \<in> set (all_nodes (checkDependencies T c)) \<Longrightarrow> watches n c \<Longrightarrow> flagged_by c n"
proof (induction T arbitrary: n)
  case (MindMapData i l w f fs x ch)
  let ?r = "checkDependencies (MindMapData i l w f fs x ch) c"
  obtain f' fs' where r: "?r = MindMapData i l w f' fs' x (map_option (map (\<lambda>n. checkDependencies n c)) ch)"
    and here: "(case w of None \<Rightarrow> False | Some ws \<Rightarrow> c \<in> set ws) \<Longrightarrow> f' = Some True \<and> c \<in> set (case fs' of None \<Rightarrow> [] | Some fl \<Rightarrow> fl)"
    by (cases fs) (auto simp: Let_def)
  from MindMapData.prems(1) consider "n = ?r"
    | cs k where "ch = Some cs" "k \<in> set cs" "n \<in> set (all_nodes (checkDependencies k c))"
    unfolding r by (cases ch) auto
  then show ?case
  proof cases
    case 1
    with r have n: "n = MindMapData i l w f' fs' x (map_option (map (\<lambda>n. checkDependencies n c)) ch)"
      by (simp only:)
    show ?thesis using MindMapData.prems(2) here
      unfolding n by (simp add: watches_def flagged_by_def flags_def)
  next
    case 2
    then show ?thesis using MindMapData.IH MindMapData.prems(2) by auto
  qed
qed

lemma check_distinct_flags:
  "(\<And>m. m \<in> set (all_nodes T) \<Longrightarrow> distinct (flags m)) \<Longrightarrow>
   n \<in> set (all_nodes (checkDependencies T c)) \<Longrightarrow> distinct (flags n)"
proof (induction T arbitrary: n)
  case (MindMapData i l w f fs x ch)
  let ?T = "MindMapData i l w f fs x ch"
  let ?r = "checkDependencies ?T c"
  have "distinct (flags ?T)" using MindMapData.prems(1) by simp
  then have top: "distinct (flags ?r)"
    by (cases fs) (auto simp: Let_def flags_def)
  obtain f' fs' where r: "?r = MindMapData i l w f' fs' x (map_option (map (\<lambda>n. checkDependencies n c)) ch)"
    by (simp add: Let_def)
  from MindMapData.prems(2) consider "n = ?r"
    | cs k where "ch = Some cs" "k \<in> set cs" "n \<in> set (all_nodes (checkDependencies k c))"
    unfolding r by (cases ch) auto
  then show ?case
  proof cases
    case 1
    then show ?thesis using top by simp
  next
    case 2
    have "\<And>m. m \<in> set (all_nodes k) \<Longrightarrow> distinct (flags m)"
      using MindMapData.prems(1) 2(1,2) by auto
    then show ?thesis using MindMapData.IH 2 by auto
  qed
qed

lemma check_same_nodes:
  "map unflagged_view (all_nodes (checkDependencies T c)) = map unflagged_view (all_nodes T)"
proof (induction T)
  case (MindMapData i l w f fs x ch)
  have kids: "map unflagged_view (concat (map all_nodes (map (\<lambda>n. checkDependencies n c) cs)))
     = map unflagged_view (concat (map all_nodes cs))" if "ch = Some cs" for cs
  proof -
    have "map (\<lambda>k. map unflagged_view (all_nodes (checkDependencies k c))) cs
        = map (\<lambda>k. map unflagged_view (all_nodes k)) cs"
      using MindMapData.IH that by simp
    then have "concat (map (\<lambda>k. map unflagged_view (all_nodes (checkDependencies k c))) cs)
        = concat (map (\<lambda>k. map unflagged_view (all_nodes k)) cs)"
      by (rule arg_cong)
    then show ?thesis by (simp add: map_concat comp_def)
  qed
  obtain f' fs' where r: "checkDependencies (MindMapData i l w f fs x ch) c
      = MindMapData i l w f' fs' x (map_option (map (\<lambda>n. checkDependencies n c)) ch)"
    by (simp add: Let_def)
  have top: "unflagged_view (MindMapData i l w f' fs' x k) = unflagged_view (MindMapData i l w f fs x ch)" for k
    by (simp add: unflagged_view_def)
  show ?case
    unfolding r using kids top by (cases ch) simp_all
qed

text \<open>
  Claim C5. Running \<open>checkDependencies\<close> a second time with the same changed
  identifier returns the tree the first run returned, so no identifier is appended a
  second time. The run keeps the nodes and what they watch; every node of its result that
  watches the changed identifier is flagged for review and has the identifier among its
  flag sources; and flag sources that had no duplicates have none afterwards.
\<close>

theorem checkDependencies_idempotent:
  "checkDependencies (checkDependencies T c) c = checkDependencies T c
   \<and> map unflagged_view (all_nodes (checkDependencies T c)) = map unflagged_view (all_nodes T)
   \<and> (\<forall>n \<in> set (all_nodes (checkDependencies T c)). watches n c \<longrightarrow> flagged_by c n)
   \<and> ((\<forall>m \<in> set (all_nodes T). distinct (flags m)) \<longrightarrow>
        (\<forall>n \<in> set (all_nodes (checkDependencies T c)). distinct (flags n)))"
  using check_idem [of T c] check_same_nodes [of T c] check_flags_watchers [of _ T c]
    check_distinct_flags [of T _ c]
  by blast

theorem checkDependencies_idempotent_witness:
  "(let n = MindMapData ''a'' ''A'' (Some [''b'']) (Some True) (Some [''b'']) ()
              (Some [MindMapData ''a1'' ''A1'' None None None () None,
                     MindMapData ''a2'' ''A2'' None None None () None])
    in n \<in> set (all_nodes (checkDependencies example_document ''b''))
       \<and> watches n ''b'' \<and> flagged_by ''b'' n \<and> flags n = [''b''])"
proof -
  let ?n = "MindMapData ''a'' ''A'' (Some [''b'']) (Some True) (Some [''b'']) ()
              (Some [MindMapData ''a1'' ''A1'' None None None () None,
                     MindMapData ''a2'' ''A2'' None None None () None])"
  have m: "?n \<in> set (all_nodes (checkDependencies example_document ''b''))"
    by (simp add: example_document_def Let_def)
  have w: "watches ?n ''b''"
    by (simp add: watches_def)
  from checkDependencies_idempotent [of example_document "''b''"] m w
  have "flagged_by ''b'' ?n" by blast
  then show ?thesis using m w by (simp add: Let_def flags_def)
qed

subsection \<open>The mutation pipeline\<close>

text \<open>
  Claim C6. When no node of the live document has the identifier, \<open>updateNodeInTree\<close>
  returns the state it was given: the document, the history stack and its index, the
  log, the saved sessions and the trace of calls are all as before, so nothing was
  committed, nothing was logged or saved and \<open>checkDependencies\<close> was not called.
\<close>

theorem updateNodeInTree_silent_miss:
  assumes "mindMap s = Some T" and "nodeId \<notin> set (node_ids T)"
  shows "updateNodeInTree nodeId updateFn actionDescription shouldAutoSave triggerDependencyCheck now s = s"
  using assms by (simp add: updateNodeInTree_def find_absent)

theorem updateNodeInTree_silent_miss_witness:
  "(let s = initial_state\<lparr>mindMap := Some example_document, isDevMode := True\<rparr>
    in mindMap s = Some example_document
       \<and> ''zz'' \<notin> set (node_ids example_document)
       \<and> updateNodeInTree ''zz'' (\<lambda>n. n) ''Edited node'' True True 7 s = s)"
proof -
  let ?s = "initial_state\<lparr>mindMap := Some example_document, isDevMode := True\<rparr>"
  have m: "mindMap ?s = Some example_document"
    by simp
  have z: "''zz'' \<notin> set (node_ids example_document)"
    by (simp add: example_document_def)
  from updateNodeInTree_silent_miss [OF m z]
  show ?thesis using m z by (simp add: Let_def)
qed

section \<open>Properties of the decision auto-linker\<close>

text \<open>\<open>str_includes\<close> is the substring test.\<close>

lemma startsWith_iff: "startsWith s k \<longleftrightarrow> (\<exists>q. s = k @ q)"
  by (induction s k rule: startsWith.induct) auto

lemma str_includes_iff: "str_includes s k \<longleftrightarrow> (\<exists>p q. s = p @ k @ q)"
proof (induction s)
  case Nil
  then show ?case by auto
next
  case (Cons c s)
  have "(\<exists>p q. c # s = p @ k @ q) \<longleftrightarrow> (\<exists>q. c # s = k @ q) \<or> (\<exists>p q. s = p @ k @ q)"
    by (auto simp: Cons_eq_append_conv)
  then show ?case using Cons by (simp add: startsWith_iff)
qed

lemma findIndex_range: "- 1 \<le> findIndex p xs \<and> (findIndex p xs = - 1 \<longleftrightarrow> \<not> list_ex p xs)"
  by (induction xs) (auto simp: Let_def)

lemma findIndex_first:
  "list_ex p xs \<Longrightarrow> findIndex p xs = int (length (takeWhile (\<lambda>b. \<not> p b) xs))"
  using findIndex_range [of p] by (induction xs) (auto simp: Let_def)

subsection \<open>Lower case and case-insensitive spelling\<close>

lemma capitals_distinct: "distinct (map fst (zip ''ABCDEFGHIJKLMNOPQRSTUVWXYZ'' ''abcdefghijklmnopqrstuvwxyz''))"
  by simp

lemma letters_not_capital_all:
  "\<forall>k \<in> set ''abcdefghijklmnopqrstuvwxyz''. map_of (zip ''ABCDEFGHIJKLMNOPQRSTUVWXYZ'' ''abcdefghijklmnopqrstuvwxyz'') k = None"
  by simp

lemma letters_not_capital:
  "k \<in> letters \<Longrightarrow> map_of (zip ''ABCDEFGHIJKLMNOPQRSTUVWXYZ'' ''abcdefghijklmnopqrstuvwxyz'') k = None"
  unfolding letters_def using letters_not_capital_all by blast

lemma lower_char_iff: "k \<in> letters \<Longrightarrow> toLowerCase_char c = k \<longleftrightarrow> same_letter c k"
proof -
  assume k: "k \<in> letters"
  let ?tbl = "zip ''ABCDEFGHIJKLMNOPQRSTUVWXYZ'' ''abcdefghijklmnopqrstuvwxyz''"
  have s: "map_of ?tbl c = Some d \<longleftrightarrow> (c, d) \<in> set ?tbl" for d
    using map_of_eq_Some_iff [OF capitals_distinct] by blast
  show ?thesis
  proof (cases "map_of ?tbl c")
    case None
    then have "\<not> (c, k) \<in> set ?tbl" using s [of k] by simp
    then show ?thesis using None unfolding toLowerCase_char_def same_letter_def
      by (simp only: option.case) blast
  next
    case (Some d)
    then have in_tbl: "(c, d) \<in> set ?tbl" using s by blast
    have "c \<noteq> k" using Some letters_not_capital [OF k] by auto
    moreover have "(c, k) \<in> set ?tbl \<longleftrightarrow> d = k"
      using s [of k] Some by auto
    ultimately show ?thesis using Some unfolding toLowerCase_char_def same_letter_def
      by (simp only: option.case) blast
  qed
qed

lemma ascii_not_special:
  "\<forall>c \<in> set (''abcdefghijklmnopqrstuvwxyz'' @ ''ABCDEFGHIJKLMNOPQRSTUVWXYZ'').
     c \<notin> {CHR 0xE2, CHR 0x84, CHR 0xAA, CHR 0xC4, CHR 0xB0, CHR 0xCC, CHR 0x87}"
  by simp

lemma letter_not_special:
  "k \<in> letters \<Longrightarrow> k \<notin> {CHR 0xE2, CHR 0x84, CHR 0xAA, CHR 0xC4, CHR 0xB0, CHR 0xCC, CHR 0x87}"
  using ascii_not_special unfolding letters_def by (metis Un_iff set_append)

lemma same_letter_not_special:
  assumes "same_letter c k" and "k \<in> letters"
  shows "c \<notin> {CHR 0xE2, CHR 0x84, CHR 0xAA, CHR 0xC4, CHR 0xB0, CHR 0xCC, CHR 0x87}"
proof -
  have "c \<in> set (''abcdefghijklmnopqrstuvwxyz'' @ ''ABCDEFGHIJKLMNOPQRSTUVWXYZ'')"
    using assms set_zip_leftD [of c k "''ABCDEFGHIJKLMNOPQRSTUVWXYZ''" "''abcdefghijklmnopqrstuvwxyz''"]
    unfolding same_letter_def letters_def by (metis Un_iff set_append)
  then show ?thesis using ascii_not_special by blast
qed

lemma starts_spelled:
  "set kw \<subseteq> letters \<Longrightarrow> (kw \<noteq> [] \<longrightarrow> last kw \<noteq> CHR ''i'') \<Longrightarrow>
   startsWith (toLowerCase s) kw \<longleftrightarrow> spelled s kw"
proof (induction s arbitrary: kw rule: toLowerCase.induct)
  case 1
  then show ?case by (cases kw) simp_all
next
  case (2 c s)
  show ?case
  proof (cases kw)
    case Nil
    then show ?thesis by simp
  next
    case (Cons k ks)
    have k: "k \<in> letters" and ks: "set ks \<subseteq> letters" "ks \<noteq> [] \<longrightarrow> last ks \<noteq> CHR ''i''"
      using "2.prems" Cons by auto
    have nsl: "\<not> same_letter c k" if "c \<in> {CHR 0xE2, CHR 0xC4}"
      using same_letter_not_special [of c k] k that by auto
    show ?thesis
    proof (cases "c # take 2 s = kelvin_sign")
      case True
      then have c: "c = CHR 0xE2" by (simp add: kelvin_sign_def)
      from "2.IH"(1) [OF True ks]
      have "startsWith (toLowerCase (drop 2 s)) ks \<longleftrightarrow> spelled (drop 2 s) ks" .
      then show ?thesis using True nsl c Cons by auto
    next
      case nk: False
      show ?thesis
      proof (cases "c # take 1 s = capital_i_with_dot")
        case True
        then have c: "c = CHR 0xC4" by (simp add: capital_i_with_dot_def)
        have "\<not> startsWith (CHR ''i'' # combining_dot @ toLowerCase (drop 1 s)) (k # ks)"
        proof (cases ks)
          case Nil
          then show ?thesis using "2.prems"(2) Cons by simp
        next
          case (Cons k2 ks2)
          then have "k2 \<in> letters" using ks by simp
          then have "k2 \<noteq> CHR 0xCC" using letter_not_special [of k2] by auto
          then show ?thesis using Cons by (simp add: combining_dot_def)
        qed
        then show ?thesis using True nk nsl c Cons by simp
      next
        case False
        from "2.IH"(3) [OF nk False ks]
        have "startsWith (toLowerCase s) ks \<longleftrightarrow> spelled s ks" .
        then show ?thesis using nk False Cons lower_char_iff [OF k, of c] by simp
      qed
    qed
  qed
qed

lemma not_spelled_special:
  assumes "set kw \<subseteq> letters" and "kw \<noteq> []"
    and "c \<in> {CHR 0x84, CHR 0xAA, CHR 0xB0}"
  shows "\<not> spelled (c # s) kw"
proof -
  obtain k ks where kw: "kw = k # ks" using assms(2) by (cases kw) auto
  then have "k \<in> letters" using assms(1) by simp
  then have "\<not> same_letter c k" using same_letter_not_special [of c k] assms(3) by auto
  moreover have "c # take 2 s \<noteq> kelvin_sign" using assms(3) by (auto simp: kelvin_sign_def)
  ultimately show ?thesis using kw by simp
qed

lemma includes_contains_ci:
  assumes "set kw \<subseteq> letters" and "kw \<noteq> []" and "last kw \<noteq> CHR ''i''"
  shows "str_includes (toLowerCase s) kw \<longleftrightarrow> contains_ci s kw"
proof (induction s rule: toLowerCase.induct)
  case 1
  then show ?case by simp
next
  case (2 c s)
  have st: "startsWith (toLowerCase t) kw \<longleftrightarrow> spelled t kw" for t
    using starts_spelled [of kw t] assms by simp
  obtain k ks where kw: "kw = k # ks" using assms(2) by (cases kw) auto
  then have k: "k \<in> letters" using assms(1) by simp
  show ?case
  proof (cases "c # take 2 s = kelvin_sign")
    case True
    then obtain r where s: "s = CHR 0x84 # CHR 0xAA # r"
      by (cases s; cases "tl s") (auto simp: kelvin_sign_def)
    have "contains_ci s kw \<longleftrightarrow> contains_ci r kw"
      using not_spelled_special [OF assms(1,2)] by (simp add: s)
    moreover have "str_includes (toLowerCase (drop 2 s)) kw \<longleftrightarrow> contains_ci (drop 2 s) kw"
      using "2.IH"(1) [OF True] .
    moreover have "str_includes (toLowerCase (c # s)) kw \<longleftrightarrow>
        startsWith (toLowerCase (c # s)) kw \<or> str_includes (toLowerCase (drop 2 s)) kw"
      using True by simp
    ultimately show ?thesis using st [of "c # s"] by (simp add: s)
  next
    case nk: False
    show ?thesis
    proof (cases "c # take 1 s = capital_i_with_dot")
      case True
      then obtain r where s: "s = CHR 0xB0 # r"
        by (cases s) (auto simp: capital_i_with_dot_def)
      have "contains_ci s kw \<longleftrightarrow> contains_ci r kw"
        using not_spelled_special [OF assms(1,2)] by (simp add: s)
      moreover have "str_includes (toLowerCase (drop 1 s)) kw \<longleftrightarrow> contains_ci (drop 1 s) kw"
        using "2.IH"(2) [OF nk True] .
      moreover have "k \<noteq> CHR 0xCC" "k \<noteq> CHR 0x87"
        using letter_not_special [OF k] by auto
      then have "str_includes (toLowerCase (c # s)) kw \<longleftrightarrow>
          startsWith (toLowerCase (c # s)) kw \<or> str_includes (toLowerCase (drop 1 s)) kw"
        using True nk kw by (simp add: combining_dot_def)
      ultimately show ?thesis using st [of "c # s"] by (simp add: s)
    next
      case False
      have "str_includes (toLowerCase s) kw \<longleftrightarrow> contains_ci s kw"
        using "2.IH"(3) [OF nk False] .
      moreover have "str_includes (toLowerCase (c # s)) kw \<longleftrightarrow>
          startsWith (toLowerCase (c # s)) kw \<or> str_includes (toLowerCase s) kw"
        using False nk by simp
      ultimately show ?thesis using st [of "c # s"] by simp
    qed
  qed
qed

lemma looksPositive_names_keyword: "looksPositive b \<longleftrightarrow> names_keyword b"
proof -
  have "str_includes (toLowerCase (branch_label b)) kw \<longleftrightarrow> contains_ci (branch_label b) kw"
    if "kw \<in> set [''yes'', ''success'', ''pass'', ''ok'', ''true'', ''confirmed'', ''valid'']" for kw
  proof -
    have "set kw \<subseteq> letters \<and> kw \<noteq> [] \<and> last kw \<noteq> CHR ''i''"
      using that unfolding letters_def by auto
    then show ?thesis using includes_contains_ci [of kw "branch_label b"] by blast
  qed
  then have "list_ex (\<lambda>k. str_includes (toLowerCase (branch_label b)) k)
               [''yes'', ''success'', ''pass'', ''ok'', ''true'', ''confirmed'', ''valid'']
           = list_ex (contains_ci (branch_label b))
               [''yes'', ''success'', ''pass'', ''ok'', ''true'', ''confirmed'', ''valid'']"
    unfolding list_ex_iff by blast
  then show ?thesis
    by (simp only: looksPositive_def positiveKeywords_def names_keyword_def)
qed

subsection \<open>The chosen branch\<close>

lemma looksPositive_eq: "looksPositive = names_keyword"
  using looksPositive_names_keyword by blast

lemma targetIndex_chosen:
  "nat (if findIndex looksPositive bs \<noteq> - 1 then findIndex looksPositive bs else 0) = chosen_branch bs"
  using findIndex_range [of names_keyword bs] findIndex_first [of names_keyword bs]
  by (auto simp: chosen_branch_def looksPositive_eq)

lemma chosen_branch_first:
  "list_ex p bs \<Longrightarrow> length (takeWhile (\<lambda>b. \<not> p b) bs) < length bs
     \<and> p (bs ! length (takeWhile (\<lambda>b. \<not> p b) bs))
     \<and> (\<forall>j < length (takeWhile (\<lambda>b. \<not> p b) bs). \<not> p (bs ! j))"
proof -
  assume "list_ex p bs"
  then have a: "length (takeWhile (\<lambda>b. \<not> p b) bs) < length bs"
    by (induction bs) auto
  then have b: "p (bs ! length (takeWhile (\<lambda>b. \<not> p b) bs))"
    using nth_length_takeWhile [of "\<lambda>b. \<not> p b" bs] by simp
  have c: "\<forall>j < length (takeWhile (\<lambda>b. \<not> p b) bs). \<not> p (bs ! j)"
    using takeWhile_nth [of _ "\<lambda>b. \<not> p b" bs] nth_mem set_takeWhileD by metis
  show ?thesis using a b c by blast
qed

lemma autoLinkDecisions_nth:
  "i < length steps \<Longrightarrow> autoLinkDecisions steps ! i = autoLinkStep steps (steps ! i) i"
  by (simp add: autoLinkDecisions_def)

lemma autoLinkStep_spec:
  "i < length steps \<Longrightarrow>
   autoLinkStep steps (steps ! i) i =
     (if linkable steps i then link_to (steps ! Suc i) (steps ! i) else steps ! i)"
  by (auto simp: autoLinkStep_def linkable_def link_to_def at_index_def Let_def targetIndex_chosen
      split: option.splits)

lemma names_keyword_examples:
  "branch_label b = ''Yes'' \<Longrightarrow> names_keyword b"
  "branch_label b = ''No'' \<Longrightarrow> \<not> names_keyword b"
  "branch_label b = ''Retry'' \<Longrightarrow> \<not> names_keyword b"
  "branch_label b = ''Abort'' \<Longrightarrow> \<not> names_keyword b"
  by (simp_all add: names_keyword_def same_letter_def kelvin_sign_def)

lemma autoLinkDecisions_pair:
  assumes "step_type d = Decision" and "branches d = Some bs" and "bs \<noteq> []"
    and "\<not> list_ex (\<lambda>b. truthy (targetStepId b)) bs"
  shows "autoLinkDecisions [d, n] = [link_to n d, n]"
proof -
  have l: "linkable [d, n] 0" using assms by (simp add: linkable_def)
  have n: "\<not> linkable [d, n] 1" by (simp add: linkable_def)
  have "autoLinkDecisions [d, n] = [autoLinkStep [d, n] d 0, autoLinkStep [d, n] n 1]"
    by (simp add: autoLinkDecisions_def upt_rec)
  moreover have "autoLinkStep [d, n] d 0 = link_to n d"
    using autoLinkStep_spec [of 0 "[d, n]"] l by simp
  moreover have "autoLinkStep [d, n] n 1 = n"
    using autoLinkStep_spec [of 1 "[d, n]"] n by simp
  ultimately show ?thesis by simp
qed

lemma chosen_branch_in_range: "bs \<noteq> [] \<Longrightarrow> chosen_branch bs < length bs"
  using chosen_branch_first [of names_keyword bs] by (auto simp: chosen_branch_def)

text \<open>
  Claim C7. \<open>autoLinkDecisions\<close> keeps the length of the list; it replaces a step by
  its linked version exactly when the step is linkable (a decision with at least one
  branch, no branch with a target, and a following step) and returns every other step as
  it is. Linking changes only the target of the chosen branch, which lies within the
  branches, is the first branch that names a keyword, and is the first branch when none
  does. The test the code makes on a branch, a keyword of its list occurring in the
  lower-cased label, holds exactly when the label contains one of \<open>yes\<close>,
  \<open>success\<close>, \<open>pass\<close>, \<open>ok\<close>, \<open>true\<close>, \<open>confirmed\<close>, \<open>valid\<close> with its
  letters in either case. Branches Yes, No link Yes; branches Retry, Abort link Retry.
\<close>

theorem autoLinkDecisions_links_positive_branch:
  "length (autoLinkDecisions steps) = length steps
   \<and> (\<forall>i < length steps.
         autoLinkDecisions steps ! i =
           (if linkable steps i then link_to (steps ! Suc i) (steps ! i) else steps ! i))
   \<and> (bs \<noteq> [] \<longrightarrow> chosen_branch bs < length bs)
   \<and> (list_ex names_keyword bs \<longrightarrow>
         names_keyword (bs ! chosen_branch bs) \<and> (\<forall>j < chosen_branch bs. \<not> names_keyword (bs ! j)))
   \<and> (\<not> list_ex names_keyword bs \<longrightarrow> chosen_branch bs = 0)
   \<and> (looksPositive b \<longleftrightarrow> names_keyword b)
   \<and> (let yes = b1\<lparr>branch_label := ''Yes'', targetStepId := None\<rparr>;
           no = b2\<lparr>branch_label := ''No'', targetStepId := None\<rparr>;
           d = step\<lparr>step_type := Decision, branches := Some [yes, no]\<rparr>
       in autoLinkDecisions [d, nextStep] =
            [d\<lparr>branches := Some [yes\<lparr>targetStepId := Some (step_id nextStep)\<rparr>, no]\<rparr>, nextStep])
   \<and> (let retry = b1\<lparr>branch_label := ''Retry'', targetStepId := None\<rparr>;
           abort = b2\<lparr>branch_label := ''Abort'', targetStepId := None\<rparr>;
           d = step\<lparr>step_type := Decision, branches := Some [retry, abort]\<rparr>
       in autoLinkDecisions [d, nextStep] =
            [d\<lparr>branches := Some [retry\<lparr>targetStepId := Some (step_id nextStep)\<rparr>, abort]\<rparr>, nextStep])"
proof -
  have len: "length (autoLinkDecisions steps) = length steps"
    by (simp add: autoLinkDecisions_def)
  have each: "\<forall>i < length steps.
         autoLinkDecisions steps ! i =
           (if linkable steps i then link_to (steps ! Suc i) (steps ! i) else steps ! i)"
    using autoLinkDecisions_nth autoLinkStep_spec by simp
  have range: "bs \<noteq> [] \<longrightarrow> chosen_branch bs < length bs"
    using chosen_branch_in_range by blast
  have first: "list_ex names_keyword bs \<longrightarrow>
         names_keyword (bs ! chosen_branch bs) \<and> (\<forall>j < chosen_branch bs. \<not> names_keyword (bs ! j))"
    using chosen_branch_first [of names_keyword bs] by (simp add: chosen_branch_def)
  have dflt: "\<not> list_ex names_keyword bs \<longrightarrow> chosen_branch bs = 0"
    by (simp add: chosen_branch_def)
  have test: "looksPositive b \<longleftrightarrow> names_keyword b"
    by (rule looksPositive_names_keyword)
  have yes_no: "(let yes = b1\<lparr>branch_label := ''Yes'', targetStepId := None\<rparr>;
           no = b2\<lparr>branch_label := ''No'', targetStepId := None\<rparr>;
           d = step\<lparr>step_type := Decision, branches := Some [yes, no]\<rparr>
       in autoLinkDecisions [d, nextStep] =
            [d\<lparr>branches := Some [yes\<lparr>targetStepId := Some (step_id nextStep)\<rparr>, no]\<rparr>, nextStep])"
    by (simp add: Let_def autoLinkDecisions_pair truthy_def link_to_def chosen_branch_def
        names_keyword_examples)
  have retry_abort: "(let retry = b1\<lparr>branch_label := ''Retry'', targetStepId := None\<rparr>;
           abort = b2\<lparr>branch_label := ''Abort'', targetStepId := None\<rparr>;
           d = step\<lparr>step_type := Decision, branches := Some [retry, abort]\<rparr>
       in autoLinkDecisions [d, nextStep] =
            [d\<lparr>branches := Some [retry\<lparr>targetStepId := Some (step_id nextStep)\<rparr>, abort]\<rparr>, nextStep])"
    by (simp add: Let_def autoLinkDecisions_pair truthy_def link_to_def chosen_branch_def
        names_keyword_examples)
  show ?thesis
    using len each range first dflt test yes_no retry_abort by blast
qed

theorem autoLinkDecisions_links_positive_branch_witness:
  "(let rejected = \<lparr>branch_id = ''b1'', branch_label = ''Rejected'', targetStepId = None\<rparr>;
        confirmed = \<lparr>branch_id = ''b2'', branch_label = ''CONFIRMED!'', targetStepId = Some []\<rparr>;
        no = \<lparr>branch_id = ''b3'', branch_label = ''No'', targetStepId = None\<rparr>;
        ok = \<lparr>branch_id = ''b4'', branch_label = ''O'' @ kelvin_sign, targetStepId = None\<rparr>;
        d1 = \<lparr>step_id = ''s1'', stepNumber = 1, step_type = Decision, action = ''Review'',
              step_description = [], role = ''User'', isEndState = False,
              branches = Some [rejected, confirmed]\<rparr>;
        d2 = \<lparr>step_id = ''s2'', stepNumber = 2, step_type = Decision, action = ''Check'',
              step_description = [], role = ''User'', isEndState = False,
              branches = Some [no, ok]\<rparr>;
        n = \<lparr>step_id = ''s3'', stepNumber = 3, step_type = Action, action = ''Go on'',
             step_description = [], role = ''User'', isEndState = False, branches = None\<rparr>
    in linkable [d1, d2, n] 0 \<and> linkable [d1, d2, n] 1 \<and> \<not> linkable [d1, d2, n] 2
       \<and> \<not> looksPositive rejected \<and> looksPositive confirmed
       \<and> \<not> looksPositive no \<and> looksPositive ok
       \<and> chosen_branch [rejected, confirmed] = 1 \<and> chosen_branch [no, ok] = 1
       \<and> autoLinkDecisions [d1, d2, n] ! 0 =
           d1\<lparr>branches := Some [rejected, confirmed\<lparr>targetStepId := Some ''s2''\<rparr>]\<rparr>
       \<and> autoLinkDecisions [d1, d2, n] ! 1 =
           d2\<lparr>branches := Some [no, ok\<lparr>targetStepId := Some ''s3''\<rparr>]\<rparr>
       \<and> autoLinkDecisions [d1, d2, n] ! 2 = n)"
proof -
  let ?rejected = "\<lparr>branch_id = ''b1'', branch_label = ''Rejected'', targetStepId = None\<rparr>"
  let ?confirmed = "\<lparr>branch_id = ''b2'', branch_label = ''CONFIRMED!'', targetStepId = Some []\<rparr>"
  let ?no = "\<lparr>branch_id = ''b3'', branch_label = ''No'', targetStepId = None\<rparr>"
  let ?ok = "\<lparr>branch_id = ''b4'', branch_label = ''O'' @ kelvin_sign, targetStepId = None\<rparr>"
  let ?d1 = "\<lparr>step_id = ''s1'', stepNumber = 1, step_type = Decision, action = ''Review'',
              step_description = [], role = ''User'', isEndState = False,
              branches = Some [?rejected, ?confirmed]\<rparr>"
  let ?d2 = "\<lparr>step_id = ''s2'', stepNumber = 2, step_type = Decision, action = ''Check'',
              step_description = [], role = ''User'', isEndState = False,
              branches = Some [?no, ?ok]\<rparr>"
  let ?n = "\<lparr>step_id = ''s3'', stepNumber = 3, step_type = Action, action = ''Go on'',
             step_description = [], role = ''User'', isEndState = False, branches = None\<rparr>"
  let ?s = "[?d1, ?d2, ?n]"
  have pos: "\<not> names_keyword ?rejected" "names_keyword ?confirmed"
      "\<not> names_keyword ?no" "names_keyword ?ok"
    by (simp_all add: names_keyword_def same_letter_def kelvin_sign_def)
  have ch: "chosen_branch [?rejected, ?confirmed] = 1" "chosen_branch [?no, ?ok] = 1"
    using pos by (simp_all add: chosen_branch_def)
  have l: "linkable ?s 0" "linkable ?s 1" "\<not> linkable ?s 2"
    by (simp_all add: linkable_def truthy_def)
  note th = autoLinkDecisions_links_positive_branch
  have t: "looksPositive x \<longleftrightarrow> names_keyword x" for x
    using th [of ?s "[]" x]
    by (rule conjunct1 [OF conjunct2 [OF conjunct2 [OF conjunct2 [OF conjunct2 [OF conjunct2]]]]])
  have code: "\<not> looksPositive ?rejected" "looksPositive ?confirmed"
      "\<not> looksPositive ?no" "looksPositive ?ok"
    unfolding t by (rule pos)+
  from th [of ?s "[]"]
  have "\<forall>i < length ?s. autoLinkDecisions ?s ! i =
           (if linkable ?s i then link_to (?s ! Suc i) (?s ! i) else ?s ! i)"
    by (rule conjunct1 [OF conjunct2])
  then have "autoLinkDecisions ?s ! 0 = link_to ?d2 ?d1" "autoLinkDecisions ?s ! 1 = link_to ?n ?d2"
      "autoLinkDecisions ?s ! 2 = ?n"
    using l by simp_all
  then show ?thesis
    using l ch code by (simp add: Let_def link_to_def)
qed

section \<open>Properties of the process flow projection\<close>

subsection \<open>The height of the projected tree\<close>

lemma height_set_label [simp]: "height (set_label l n) = height n"
  by (cases n) (simp add: set_label_def)

lemma height_loopNode [simp]: "height (loopNode s x) = 1"
  by (simp add: loopNode_def)

lemma height_placeholderNode [simp]: "height (placeholderNode b) = 1"
  by (simp add: placeholderNode_def)

lemma foldr_max_le: "(\<And>x. x \<in> set xs \<Longrightarrow> x \<le> (b::nat)) \<Longrightarrow> foldr max xs 0 \<le> b"
  by (induction xs) auto

lemma card_insert_le_visited:
  "card (step_ids steps - insert i visited) \<le> card (step_ids steps - visited)"
  by (rule card_mono) (auto simp: step_ids_def)

lemma height_bound:
  "height (fst (buildTree rnd steps step visited k))
     \<le> card (step_ids steps - visited) + 1 + slack steps step"
  "\<forall>c \<in> set (fst (buildTree_branches rnd steps bs newVisited k)).
     height c \<le> card (step_ids steps - newVisited) + 1"
proof (induction rnd steps step visited k and rnd steps bs newVisited k
    rule: buildTree_buildTree_branches.induct)
  case (1 rnd steps step visited k)
  show ?case
  proof (cases "step_id step \<in> visited")
    case True
    then show ?thesis by (simp add: buildTree.simps)
  next
    case False
    let ?nv = "insert (step_id step) visited"
    have dec: "card (step_ids steps - ?nv) + 1 \<le> card (step_ids steps - visited) + slack steps step"
      using visit_decreases [of step visited steps] False card_insert_le_visited [of steps "step_id step" visited]
      by (auto simp: slack_def)
    show ?thesis
    proof (cases "if step_type step = Decision then branches step else None")
      case (Some bs)
      obtain cs k' where b: "buildTree_branches rnd steps bs ?nv k = (cs, k')"
        by (cases "buildTree_branches rnd steps bs ?nv k")
      have "\<forall>c \<in> set cs. height c \<le> card (step_ids steps - ?nv) + 1"
        using "1.IH"(2) [OF False refl Some] b by simp
      then have "foldr max (map height cs) 0 \<le> card (step_ids steps - ?nv) + 1"
        by (intro foldr_max_le) auto
      then show ?thesis using dec False Some b
        by (simp add: buildTree.simps [of rnd steps step visited k])
    next
      case None
      show ?thesis
      proof (cases "\<not> isEndState step")
        case notEnd: True
        show ?thesis
        proof (cases "find (\<lambda>s. stepNumber s = stepNumber step + 1) steps")
          case nf: None
          then show ?thesis using False None notEnd
            by (simp add: buildTree.simps [of rnd steps step visited k])
        next
          case (Some nxt)
          obtain c k' where b: "buildTree rnd steps nxt ?nv k = (c, k')"
            by (cases "buildTree rnd steps nxt ?nv k")
          have "slack steps nxt = 0" using find_step_id [OF Some] by (simp add: slack_def)
          then have "height c \<le> card (step_ids steps - ?nv) + 1"
            using "1.IH"(1) [OF False refl None notEnd Some] b by simp
          then show ?thesis using dec False None notEnd Some b
            by (simp add: buildTree.simps [of rnd steps step visited k])
        qed
      next
        case False
        then show ?thesis using \<open>step_id step \<notin> visited\<close> None
          by (simp add: buildTree.simps [of rnd steps step visited k])
      qed
    qed
  qed
next
  case (2 rnd steps newVisited k)
  then show ?case by simp
next
  case (3 rnd steps branch rest newVisited k)
  show ?case
  proof (cases "truthy (targetStepId branch)")
    case True
    show ?thesis
    proof (cases "idMap steps (target_of branch)")
      case None
      then show ?thesis using True "3.IH"(1) [OF True None] by simp
    next
      case (Some targetStep)
      obtain c k1 where b: "buildTree rnd steps targetStep newVisited k = (c, k1)"
        by (cases "buildTree rnd steps targetStep newVisited k")
      obtain cs k2 where r: "buildTree_branches rnd steps rest newVisited k1 = (cs, k2)"
        by (cases "buildTree_branches rnd steps rest newVisited k1")
      have "step_id targetStep \<in> step_ids steps"
        using idMap_step_id [OF Some] .
      then have "slack steps targetStep = 0" by (simp add: slack_def)
      then have hc: "height c \<le> card (step_ids steps - newVisited) + 1"
        using "3.IH"(2) [OF True Some] b by simp
      have "\<forall>c \<in> set cs. height c \<le> card (step_ids steps - newVisited) + 1"
        using "3.IH"(3) [OF True Some b [symmetric]] r by simp
      then show ?thesis using True Some b r hc by simp
    qed
  next
    case False
    obtain cs k2 where r: "buildTree_branches rnd steps rest newVisited k = (cs, k2)"
      by (cases "buildTree_branches rnd steps rest newVisited k")
    have "\<forall>c \<in> set cs. height c \<le> card (step_ids steps - newVisited) + 1"
      using "3.IH"(4) [OF False] r by simp
    then show ?thesis using False r by simp
  qed
qed

lemma firstStep_in: "firstStep steps = Some f \<Longrightarrow> f \<in> set steps"
proof (cases steps)
  case Nil
  then show "firstStep steps = Some f \<Longrightarrow> f \<in> set steps" by simp
next
  case (Cons s rest)
  have "foldl (\<lambda>prev curr. if stepNumber prev < stepNumber curr then prev else curr) a xs \<in> set (a # xs)" for a xs
    by (induction xs arbitrary: a) (auto split: if_splits)
  then show "firstStep steps = Some f \<Longrightarrow> f \<in> set steps" using Cons by auto
qed

lemma treeData_height:
  assumes "steps \<noteq> []"
  shows "\<exists>t. treeData rnd steps = Some t \<and> height t \<le> length steps + 1"
proof -
  obtain f where f: "firstStep steps = Some f" using assms by (cases steps) auto
  then have "f \<in> set steps" by (rule firstStep_in)
  then have s: "slack steps f = 0" by (simp add: slack_def step_ids_def)
  have "card (step_ids steps) \<le> length steps"
    unfolding step_ids_def using card_image_le [of "set steps" step_id] card_length [of steps]
    by simp
  then have "height (fst (buildTree rnd steps f {} 0)) \<le> length steps + 1"
    using height_bound(1) [of rnd steps f "{}" 0] s by simp
  then show ?thesis using f by (simp add: treeData_def)
qed

subsection \<open>Loop nodes\<close>

lemma loop_when_visited:
  "step_id step \<in> visited \<Longrightarrow> buildTree rnd steps step visited k = (loopNode step (rnd k), k + 1)"
  by (simp add: buildTree.simps)

lemma startsWith_append: "startsWith (p @ s) p"
  by (induction p) auto

lemma is_loop_node_loopNode: "is_loop_node (loopNode step suffix)"
  using startsWith_append [of "''loop-'' @ step_id step @ ''-''" suffix]
  by (simp add: is_loop_node_def loopNode_def)

lemma branch_to_visited:
  assumes "truthy (targetStepId branch)" and "idMap steps (target_of branch) = Some targetStep"
    and "step_id targetStep \<in> newVisited"
  shows "fst (buildTree_branches rnd steps (branch # rest) newVisited k) =
           set_label (branch_label branch) (loopNode targetStep (rnd k)) #
           fst (buildTree_branches rnd steps rest newVisited (k + 1))"
  using assms by (simp add: target_of_def loop_when_visited split: prod.splits)

lemma is_loop_node_set_label: "is_loop_node (set_label l n) = is_loop_node n"
  by (simp add: is_loop_node_def set_label_def split: display_data.splits)

subsection \<open>The label and the identifier of a loop node\<close>

lemma digit_value_digit_all: "\<forall>d \<in> set [0 ..< 10]. digit_value (digit d) = d"
  by (simp add: digit_value_def digit_def upt_rec)

lemma digit_value_digit: "d < 10 \<Longrightarrow> digit_value (digit d) = d"
  using digit_value_digit_all by simp

lemma nat_of_string_append:
  "nat_of_string (s @ [c]) = 10 * nat_of_string s + digit_value c"
  by (simp add: nat_of_string_def)

lemma nat_of_string_string_of_nat: "nat_of_string (string_of_nat n) = n"
proof (induction n rule: string_of_nat.induct)
  case (1 n)
  show ?case
  proof (cases "n < 10")
    case True
    then show ?thesis
      by (subst string_of_nat.simps) (simp add: nat_of_string_def digit_value_digit)
  next
    case False
    then have "nat_of_string (string_of_nat n) =
        10 * nat_of_string (string_of_nat (n div 10)) + digit_value (digit (n mod 10))"
      by (subst string_of_nat.simps) (simp add: nat_of_string_append)
    then show ?thesis using 1 False by (simp add: digit_value_digit)
  qed
qed

lemma digit_in_digits: "d < 10 \<Longrightarrow> digit d \<in> set ''0123456789''"
  unfolding digit_def by (rule nth_mem) simp

lemma string_of_nat_digits: "set (string_of_nat n) \<subseteq> set ''0123456789''"
proof (induction n rule: string_of_nat.induct)
  case (1 n)
  show ?case
  proof (cases "n < 10")
    case True
    then show ?thesis using digit_in_digits [of n]
      by (subst string_of_nat.simps) simp
  next
    case False
    then show ?thesis using 1 digit_in_digits [of "n mod 10"]
      by (subst string_of_nat.simps) simp
  qed
qed

lemma string_of_nat_not_Nil: "string_of_nat n \<noteq> []"
  by (subst string_of_nat.simps) simp

lemma int_of_string_string_of_int: "int_of_string (string_of_int n) = n"
proof (cases "n < 0")
  case True
  then show ?thesis
    by (simp add: int_of_string_def string_of_int_def nat_of_string_string_of_nat)
next
  case False
  obtain c r where s: "string_of_nat (nat n) = c # r"
    using string_of_nat_not_Nil [of "nat n"] by (cases "string_of_nat (nat n)") auto
  then have "c \<in> set ''0123456789''" using string_of_nat_digits [of "nat n"] by auto
  then have "c \<noteq> CHR ''-''" by auto
  moreover have "nat_of_string (c # r) = nat n"
    using nat_of_string_string_of_nat [of "nat n"] s by simp
  ultimately show ?thesis using False s
    by (simp add: int_of_string_def string_of_int_def)
qed

lemma loop_target_number_loopNode: "loop_target_number (loopNode step suffix) = Some (stepNumber step)"
proof -
  let ?x = "string_of_int (stepNumber step)"
  have p: "loop_arrow @ '' Loop to Step '' @ ?x = loop_label_prefix @ ?x"
    by (simp add: loop_arrow_def loop_label_prefix_def)
  have "loop_target_number (loopNode step suffix) =
      (if startsWith (loop_label_prefix @ ?x) loop_label_prefix
       then Some (int_of_string (drop (length loop_label_prefix) (loop_label_prefix @ ?x)))
       else None)"
    unfolding loop_target_number_def loopNode_def by (simp only: p DisplayNode.sel display_data.case, simp)
  then show ?thesis
    by (simp add: startsWith_append int_of_string_string_of_int)
qed

lemma startsWith_length: "startsWith s p \<Longrightarrow> length p \<le> length s"
  by (auto simp: startsWith_iff)

lemma step_node_not_loop: "\<not> is_loop_node (DisplayNode (step_id step) (StepData step) t l cs)"
  using startsWith_length [of "step_id step" "''loop-'' @ step_id step @ ''-''"]
  by (auto simp: is_loop_node_def)

lemma placeholder_not_loop: "\<not> is_loop_node (placeholderNode b)"
  by (simp add: is_loop_node_def placeholderNode_def)

lemma loop_nodes_node:
  "loop_nodes (DisplayNode i d t l cs) =
     (if is_loop_node (DisplayNode i d t l cs) then [DisplayNode i d t l cs] else []) @
     concat (map loop_nodes cs)"
proof -
  have "(\<lambda>x. filter is_loop_node (display_nodes x)) = loop_nodes"
    by (simp add: loop_nodes_def fun_eq_iff)
  then show ?thesis
    by (simp add: loop_nodes_def [of "DisplayNode i d t l cs"] filter_concat comp_def)
qed

lemma loop_nodes_step_node:
  "loop_nodes (DisplayNode (step_id step) (StepData step) t l cs) = concat (map loop_nodes cs)"
  by (simp add: loop_nodes_node step_node_not_loop)

lemma loop_nodes_placeholder: "loop_nodes (placeholderNode b) = []"
  using placeholder_not_loop [of b] by (simp add: loop_nodes_def placeholderNode_def)

lemma loop_nodes_loopNode: "loop_nodes (loopNode step r) = [loopNode step r]"
  using is_loop_node_loopNode [of step r] by (simp add: loop_nodes_def loopNode_def)

lemma loop_suffix_loopNode: "loop_suffix (loopNode step r) = r"
  by (simp add: loop_suffix_def loopNode_def)

lemma loop_suffix_set_label: "loop_suffix (set_label l n) = loop_suffix n"
  by (simp add: loop_suffix_def set_label_def split: display_data.splits)

lemma dn_id_set_label: "dn_id (set_label l n) = dn_id n"
  by (simp add: set_label_def)

lemma loop_nodes_set_label:
  "loop_nodes (set_label l n) =
     (if is_loop_node n then [set_label l n] else []) @ concat (map loop_nodes (dn_children n))"
  using is_loop_node_set_label [of l n]
  by (cases n) (simp add: loop_nodes_node set_label_def)

lemma loop_nodes_children:
  "loop_nodes n = (if is_loop_node n then [n] else []) @ concat (map loop_nodes (dn_children n))"
  by (cases n) (simp add: loop_nodes_node)

lemma map_loop_nodes_set_label:
  assumes "\<And>m. f (set_label l m) = f m"
  shows "map f (loop_nodes (set_label l n)) = map f (loop_nodes n)"
  using assms by (simp add: loop_nodes_set_label loop_nodes_children [of n])

lemma loop_draws:
  "k \<le> snd (buildTree rnd steps step visited k) \<and>
   map loop_suffix (loop_nodes (fst (buildTree rnd steps step visited k))) =
     map rnd [k ..< snd (buildTree rnd steps step visited k)]"
  "k \<le> snd (buildTree_branches rnd steps bs newVisited k) \<and>
   map loop_suffix (concat (map loop_nodes (fst (buildTree_branches rnd steps bs newVisited k)))) =
     map rnd [k ..< snd (buildTree_branches rnd steps bs newVisited k)]"
proof (induction rnd steps step visited k and rnd steps bs newVisited k
    rule: buildTree_buildTree_branches.induct)
  case (1 rnd steps step visited k)
  show ?case
  proof (cases "step_id step \<in> visited")
    case True
    then show ?thesis
      by (simp add: buildTree.simps loop_nodes_loopNode loop_suffix_loopNode)
  next
    case False
    let ?nv = "insert (step_id step) visited"
    show ?thesis
    proof (cases "if step_type step = Decision then branches step else None")
      case (Some bs)
      obtain cs k' where b: "buildTree_branches rnd steps bs ?nv k = (cs, k')"
        by (cases "buildTree_branches rnd steps bs ?nv k")
      have "k \<le> k' \<and> map loop_suffix (concat (map loop_nodes cs)) = map rnd [k ..< k']"
        using "1.IH"(2) [OF False refl Some] b by simp
      then show ?thesis using False Some b
        by (simp add: buildTree.simps [of rnd steps step visited k] loop_nodes_step_node)
    next
      case None
      show ?thesis
      proof (cases "\<not> isEndState step")
        case notEnd: True
        show ?thesis
        proof (cases "find (\<lambda>s. stepNumber s = stepNumber step + 1) steps")
          case nf: None
          then show ?thesis using False None notEnd
            by (simp add: buildTree.simps [of rnd steps step visited k] loop_nodes_step_node)
        next
          case (Some nxt)
          obtain c k' where b: "buildTree rnd steps nxt ?nv k = (c, k')"
            by (cases "buildTree rnd steps nxt ?nv k")
          have "k \<le> k' \<and> map loop_suffix (loop_nodes c) = map rnd [k ..< k']"
            using "1.IH"(1) [OF False refl None notEnd Some] b by simp
          then show ?thesis using False None notEnd Some b
            by (simp add: buildTree.simps [of rnd steps step visited k] loop_nodes_step_node)
        qed
      next
        case False
        then show ?thesis using \<open>step_id step \<notin> visited\<close> None
          by (simp add: buildTree.simps [of rnd steps step visited k] loop_nodes_step_node)
      qed
    qed
  qed
next
  case (2 rnd steps newVisited k)
  then show ?case by simp
next
  case (3 rnd steps branch rest newVisited k)
  show ?case
  proof (cases "truthy (targetStepId branch)")
    case True
    show ?thesis
    proof (cases "idMap steps (target_of branch)")
      case None
      then show ?thesis using True "3.IH"(1) [OF True None] by simp
    next
      case (Some targetStep)
      obtain c k1 where b: "buildTree rnd steps targetStep newVisited k = (c, k1)"
        by (cases "buildTree rnd steps targetStep newVisited k")
      obtain cs k2 where r: "buildTree_branches rnd steps rest newVisited k1 = (cs, k2)"
        by (cases "buildTree_branches rnd steps rest newVisited k1")
      have hc: "k \<le> k1" "map loop_suffix (loop_nodes c) = map rnd [k ..< k1]"
        using "3.IH"(2) [OF True Some] b by simp_all
      have hr: "k1 \<le> k2" "map loop_suffix (concat (map loop_nodes cs)) = map rnd [k1 ..< k2]"
        using "3.IH"(3) [OF True Some b [symmetric]] r by simp_all
      have "[k ..< k2] = [k ..< k1] @ [k1 ..< k2]"
        using hc(1) hr(1) by (metis le_Suc_ex upt_add_eq_append)
      then have "map rnd [k ..< k2] =
          map loop_suffix (loop_nodes (set_label (branch_label branch) c)) @
          map loop_suffix (concat (map loop_nodes cs))"
        using hc(2) hr(2) map_loop_nodes_set_label [of loop_suffix "branch_label branch" c]
        by (simp add: loop_suffix_set_label)
      then show ?thesis using True Some b r hc(1) hr(1) by simp
    qed
  next
    case False
    obtain cs k2 where r: "buildTree_branches rnd steps rest newVisited k = (cs, k2)"
      by (cases "buildTree_branches rnd steps rest newVisited k")
    have "k \<le> k2 \<and> map loop_suffix (concat (map loop_nodes cs)) = map rnd [k ..< k2]"
      using "3.IH"(4) [OF False] r by simp
    then show ?thesis using False r by (simp add: loop_nodes_placeholder)
  qed
qed

lemma loop_node_id:
  assumes "is_loop_node n"
  shows "\<exists>s. dn_data n = StepData s \<and> dn_id n = ''loop-'' @ step_id s @ ''-'' @ loop_suffix n"
proof -
  obtain s where d: "dn_data n = StepData s"
    and st: "startsWith (dn_id n) (''loop-'' @ step_id s @ ''-'')"
    using assms by (auto simp: is_loop_node_def split: display_data.splits)
  obtain q where q: "dn_id n = (''loop-'' @ step_id s @ ''-'') @ q"
    using st startsWith_iff by blast
  have "loop_suffix n = drop (length (''loop-'' @ step_id s @ ''-'')) ((''loop-'' @ step_id s @ ''-'') @ q)"
    using d q by (simp add: loop_suffix_def)
  then have "loop_suffix n = q" by simp
  then show ?thesis using d q by simp
qed

lemma suffix_after_last_dash:
  assumes "a @ CHR ''-'' # r1 = b @ CHR ''-'' # r2"
    and "CHR ''-'' \<notin> set r1" and "CHR ''-'' \<notin> set r2"
  shows "r1 = r2"
proof -
  have t: "takeWhile (\<lambda>c. c \<noteq> CHR ''-'') (rev (x @ CHR ''-'' # r)) = rev r"
    if "CHR ''-'' \<notin> set r" for x r
  proof -
    have "takeWhile (\<lambda>c. c \<noteq> CHR ''-'') (rev r @ CHR ''-'' # rev x) =
        rev r @ takeWhile (\<lambda>c. c \<noteq> CHR ''-'') (CHR ''-'' # rev x)"
      by (rule takeWhile_append2) (use that in auto)
    then show ?thesis by simp
  qed
  have "rev r1 = rev r2" using t [OF assms(2), of a] t [OF assms(3), of b] assms(1) by simp
  then show ?thesis by simp
qed

lemma distinct_map_transfer:
  "distinct (map g xs) \<Longrightarrow> (\<And>x y. x \<in> set xs \<Longrightarrow> y \<in> set xs \<Longrightarrow> f x = f y \<Longrightarrow> g x = g y) \<Longrightarrow>
   distinct (map f xs)"
proof (induction xs)
  case Nil
  then show ?case by simp
next
  case (Cons a xs)
  have "f a \<notin> f ` set xs"
  proof
    assume "f a \<in> f ` set xs"
    then obtain y where y: "y \<in> set xs" "f a = f y" by auto
    then have "g a = g y" using Cons.prems(2) [of a y] by simp
    then show False using Cons.prems(1) y(1) by auto
  qed
  moreover have "distinct (map f xs)"
    using Cons.IH Cons.prems by simp
  ultimately show ?case by simp
qed

lemma loop_ids_distinct:
  assumes "distinct (map rnd [k ..< snd (buildTree rnd steps step visited k)])"
    and "\<forall>j \<in> set [k ..< snd (buildTree rnd steps step visited k)]. CHR ''-'' \<notin> set (rnd j)"
  shows "distinct (map dn_id (loop_nodes (fst (buildTree rnd steps step visited k))))"
proof -
  let ?t = "fst (buildTree rnd steps step visited k)"
  let ?k' = "snd (buildTree rnd steps step visited k)"
  have draws: "map loop_suffix (loop_nodes ?t) = map rnd [k ..< ?k']"
    using loop_draws(1) [of k rnd steps step visited] by simp
  have d: "distinct (map loop_suffix (loop_nodes ?t))" using draws assms(1) by simp
  have nodash: "CHR ''-'' \<notin> set (loop_suffix n)" if "n \<in> set (loop_nodes ?t)" for n
  proof -
    have "loop_suffix n \<in> set (map loop_suffix (loop_nodes ?t))" using that by simp
    then have "loop_suffix n \<in> set (map rnd [k ..< ?k'])" using draws by simp
    then obtain j where "j \<in> set [k ..< ?k']" "loop_suffix n = rnd j" by auto
    then show ?thesis using assms(2) by simp
  qed
  have "loop_suffix n = loop_suffix m"
    if n: "n \<in> set (loop_nodes ?t)" and m: "m \<in> set (loop_nodes ?t)" and e: "dn_id n = dn_id m" for n m
  proof -
    from n m have l: "is_loop_node n" "is_loop_node m" by (simp_all add: loop_nodes_def)
    obtain s where a: "dn_data n = StepData s \<and> dn_id n = ''loop-'' @ step_id s @ ''-'' @ loop_suffix n"
      using loop_node_id [OF l(1)] ..
    obtain s' where b: "dn_data m = StepData s' \<and> dn_id m = ''loop-'' @ step_id s' @ ''-'' @ loop_suffix m"
      using loop_node_id [OF l(2)] ..
    from a b have "(''loop-'' @ step_id s) @ CHR ''-'' # loop_suffix n =
               (''loop-'' @ step_id s') @ CHR ''-'' # loop_suffix m"
      using e by simp
    then show ?thesis using nodash [OF n] nodash [OF m] by (rule suffix_after_last_dash)
  qed
  then show ?thesis using d by (rule distinct_map_transfer [rotated]) 
qed

lemma native_node_set_label: "native_node steps (set_label l n) = native_node steps n"
  by (simp add: native_node_def is_loop_node_set_label dn_id_set_label)

lemma native_nodes_set_label:
  assumes "\<forall>n \<in> set (display_nodes c). native_node steps n"
  shows "\<forall>n \<in> set (display_nodes (set_label l c)). native_node steps n"
proof (cases c)
  case (DisplayNode i d t l0 cs)
  have "native_node steps (set_label l c)"
    using assms DisplayNode by (simp add: native_node_set_label)
  then show ?thesis using assms DisplayNode by (simp add: set_label_def)
qed

lemma native_node_mono: "native_node steps n \<Longrightarrow> native_node (step # steps) n"
  by (auto simp: native_node_def step_ids_def)

lemma native_node_member: "s \<in> set steps \<Longrightarrow> native_node (s # steps) n \<Longrightarrow> native_node steps n"
  by (auto simp: native_node_def step_ids_def)

lemma native_nodes:
  "\<forall>n \<in> set (display_nodes (fst (buildTree rnd steps step visited k))). native_node (step # steps) n"
  "\<forall>c \<in> set (fst (buildTree_branches rnd steps bs newVisited k)).
     \<forall>n \<in> set (display_nodes c). native_node steps n"
proof (induction rnd steps step visited k and rnd steps bs newVisited k
    rule: buildTree_buildTree_branches.induct)
  case (1 rnd steps step visited k)
  have self: "native_node (step # steps) (DisplayNode (step_id step) d t l cs)" for d t l cs
    by (simp add: native_node_def step_ids_def)
  show ?case
  proof (cases "step_id step \<in> visited")
    case True
    have "native_node (step # steps) (loopNode step (rnd k))"
      by (simp add: native_node_def is_loop_node_loopNode)
    then show ?thesis using True
      by (simp add: buildTree.simps [of rnd steps step visited k] loopNode_def)
  next
    case False
    let ?nv = "insert (step_id step) visited"
    show ?thesis
    proof (cases "if step_type step = Decision then branches step else None")
      case (Some bs)
      obtain cs k' where b: "buildTree_branches rnd steps bs ?nv k = (cs, k')"
        by (cases "buildTree_branches rnd steps bs ?nv k")
      have "\<forall>c \<in> set cs. \<forall>n \<in> set (display_nodes c). native_node steps n"
        using "1.IH"(2) [OF False refl Some] b by simp
      then have "\<forall>c \<in> set cs. \<forall>n \<in> set (display_nodes c). native_node (step # steps) n"
        using native_node_mono by blast
      then show ?thesis using False Some b self
        by (simp add: buildTree.simps [of rnd steps step visited k])
    next
      case None
      show ?thesis
      proof (cases "\<not> isEndState step")
        case notEnd: True
        show ?thesis
        proof (cases "find (\<lambda>s. stepNumber s = stepNumber step + 1) steps")
          case nf: None
          then show ?thesis using False None notEnd self
            by (simp add: buildTree.simps [of rnd steps step visited k])
        next
          case (Some nxt)
          obtain c k' where b: "buildTree rnd steps nxt ?nv k = (c, k')"
            by (cases "buildTree rnd steps nxt ?nv k")
          have "nxt \<in> set steps" using Some by (auto simp: find_Some_iff)
          moreover have "\<forall>n \<in> set (display_nodes c). native_node (nxt # steps) n"
            using "1.IH"(1) [OF False refl None notEnd Some] b by simp
          ultimately have "\<forall>n \<in> set (display_nodes c). native_node (step # steps) n"
            using native_node_member native_node_mono by blast
          then show ?thesis using False None notEnd Some b self
            by (simp add: buildTree.simps [of rnd steps step visited k])
        qed
      next
        case False
        then show ?thesis using \<open>step_id step \<notin> visited\<close> None self
          by (simp add: buildTree.simps [of rnd steps step visited k])
      qed
    qed
  qed
next
  case (2 rnd steps newVisited k)
  then show ?case by simp
next
  case (3 rnd steps branch rest newVisited k)
  show ?case
  proof (cases "truthy (targetStepId branch)")
    case True
    show ?thesis
    proof (cases "idMap steps (target_of branch)")
      case None
      then show ?thesis using True "3.IH"(1) [OF True None] by simp
    next
      case (Some targetStep)
      obtain c k1 where b: "buildTree rnd steps targetStep newVisited k = (c, k1)"
        by (cases "buildTree rnd steps targetStep newVisited k")
      obtain cs k2 where r: "buildTree_branches rnd steps rest newVisited k1 = (cs, k2)"
        by (cases "buildTree_branches rnd steps rest newVisited k1")
      have "targetStep \<in> set steps" using idMap_in [OF Some] by simp
      moreover have "\<forall>n \<in> set (display_nodes c). native_node (targetStep # steps) n"
        using "3.IH"(2) [OF True Some] b by simp
      ultimately have "\<forall>n \<in> set (display_nodes c). native_node steps n"
        using native_node_member by blast
      then have hc: "\<forall>n \<in> set (display_nodes (set_label (branch_label branch) c)). native_node steps n"
        by (rule native_nodes_set_label)
      have "\<forall>c \<in> set cs. \<forall>n \<in> set (display_nodes c). native_node steps n"
        using "3.IH"(3) [OF True Some b [symmetric]] r by simp
      then show ?thesis using True Some b r hc by simp
    qed
  next
    case False
    obtain cs k2 where r: "buildTree_branches rnd steps rest newVisited k = (cs, k2)"
      by (cases "buildTree_branches rnd steps rest newVisited k")
    have "native_node steps (placeholderNode branch)"
      by (simp add: native_node_def placeholderNode_def startsWith_append [of "''missing-''", simplified])
    moreover have "\<forall>c \<in> set cs. \<forall>n \<in> set (display_nodes c). native_node steps n"
      using "3.IH"(4) [OF False] r by simp
    ultimately show ?thesis using False r by (simp add: placeholderNode_def)
  qed
qed

lemma loop_id_shared:
  assumes "n \<in> set (loop_nodes (fst (buildTree rnd steps step visited k)))"
    and "m \<in> set (display_nodes (fst (buildTree rnd steps step visited k)))"
    and "dn_id m = dn_id n"
  shows "is_loop_node m \<or> dn_id n \<in> step_ids (step # steps)"
proof -
  have l: "is_loop_node n" using assms(1) by (simp add: loop_nodes_def)
  obtain s where "dn_data n = StepData s \<and> dn_id n = ''loop-'' @ step_id s @ ''-'' @ loop_suffix n"
    using loop_node_id [OF l] ..
  then have "\<not> startsWith (dn_id m) ''missing-''" using assms(3) by simp
  moreover have "native_node (step # steps) m" using native_nodes(1) assms(2) by blast
  ultimately show ?thesis using assms(3) by (simp add: native_node_def)
qed

lemma loopNode_id_new: "dn_id (loopNode step suffix) \<noteq> step_id step"
proof
  assume "dn_id (loopNode step suffix) = step_id step"
  then have "length (''loop-'' @ step_id step @ ''-'' @ suffix) = length (step_id step)"
    by (simp add: loopNode_def)
  then show False by simp
qed

lemma inj_distinct_draws: "inj distinct_draws"
proof (rule injI)
  fix a b
  assume "distinct_draws a = distinct_draws b"
  then have "length (distinct_draws a) = length (distinct_draws b)" by simp
  then show "a = b" by (simp add: distinct_draws_def)
qed

lemma distinct_draws_no_dash: "CHR ''-'' \<notin> set (distinct_draws j)"
  by (simp add: distinct_draws_def)

lemma distinct_draws_values: "distinct_draws 0 = ''x''" "distinct_draws (Suc 0) = ''xx''"
  by (simp_all add: distinct_draws_def)

lemma cyclic_tree:
  "treeData rnd cyclic_steps =
     Some (DisplayNode ''s1'' (StepData (cyclic_steps ! 0)) Step None
       [DisplayNode ''s2'' (StepData (cyclic_steps ! 1)) Step (Some ''Go on'')
          [DisplayNode (''loop-s1-'' @ rnd 0)
             (StepData ((cyclic_steps ! 0)
                \<lparr>action := [CHR 0xE2, CHR 0x86, CHR 0xA9] @ '' Loop to Step 1'',
                  role := ''Process Cycle''\<rparr>))
             Step (Some ''Back'') []]])"
  by (simp add: treeData_def cyclic_steps_def buildTree.simps idMap_def truthy_def set_label_def
      target_of_def loopNode_def loop_arrow_def string_of_int_def string_of_nat.simps digit_def)

lemma cyclic_tree_loop:
  "\<exists>t. treeData rnd cyclic_steps = Some t \<and> list_ex is_loop_node (display_nodes t)"
proof -
  have "is_loop_node (DisplayNode (''loop-s1-'' @ rnd 0)
             (StepData ((cyclic_steps ! 0)
                \<lparr>action := [CHR 0xE2, CHR 0x86, CHR 0xA9] @ '' Loop to Step 1'',
                  role := ''Process Cycle''\<rparr>))
             Step (Some ''Back'') [])"
    using startsWith_append [of "''loop-s1-''" "rnd 0"]
    by (simp add: is_loop_node_def cyclic_steps_def loop_arrow_def string_of_int_def
        string_of_nat.simps digit_def)
  then show ?thesis by (simp add: cyclic_tree)
qed

lemma twice_back_tree:
  "treeData distinct_draws twice_back_steps =
     Some (DisplayNode ''s1'' (StepData (twice_back_steps ! 0)) Step None
       [DisplayNode ''s2'' (StepData (twice_back_steps ! 1)) Step (Some ''Go on'')
          [DisplayNode ''loop-s1-x''
             (StepData ((twice_back_steps ! 0)
                \<lparr>action := [CHR 0xE2, CHR 0x86, CHR 0xA9] @ '' Loop to Step 12'',
                  role := ''Process Cycle''\<rparr>))
             Step (Some ''Back'') [],
           DisplayNode ''loop-s1-xx''
             (StepData ((twice_back_steps ! 0)
                \<lparr>action := [CHR 0xE2, CHR 0x86, CHR 0xA9] @ '' Loop to Step 12'',
                  role := ''Process Cycle''\<rparr>))
             Step (Some ''Again'') []]])"
  by (simp add: treeData_def twice_back_steps_def buildTree.simps idMap_def truthy_def set_label_def
      target_of_def loopNode_def loop_arrow_def string_of_int_def string_of_nat.simps digit_def
      distinct_draws_values)

text \<open>
  Claim C2. \<open>buildTree\<close> is a total function: for every step list, start step,
  visited set and counter it returns a tree, whose height is at most the number of
  identifiers of the list that are not visited, plus one (plus one more for a start step
  outside the list). For a non-empty list the projection returns a tree of height at most
  the length of the list plus one. A step whose identifier is visited gives the loop node
  and one draw of the random source; a branch whose target is on the current path gives
  that loop node, labelled with the branch, as its child.

  A loop node has no children; its label names the number of the step it loops to; its
  identifier is \<open>loop-\<close>, the step's identifier, \<open>-\<close> and the suffix drawn, and is
  not the step's identifier. Every loop node of a tree has a draw of its own: the
  suffixes of the loop nodes, in the order of the tree, are the draws from the counter
  the projection started with to the counter it returned. So when these draws are
  pairwise different and none of them contains \<open>-\<close> (the suffix is made of digits
  in base 36), no two loop nodes of the tree have the same identifier. A node of the tree
  that has the identifier of a loop node is a loop node itself, unless a step of the
  input already has that identifier.

  For the two-step cycle the tree is step 1, step 2 and a loop node for step 1, with the
  label \<open>Loop to Step 1\<close>.
\<close>

theorem buildTree_terminates_with_loop_nodes:
  "height (fst (buildTree rnd steps step visited k))
     \<le> card (step_ids steps - visited) + 1 + slack steps step
   \<and> (steps \<noteq> [] \<longrightarrow> (\<exists>t. treeData rnd steps = Some t \<and> height t \<le> length steps + 1))
   \<and> (step_id step \<in> visited \<longrightarrow>
        buildTree rnd steps step visited k = (loopNode step (rnd k), k + 1))
   \<and> (truthy (targetStepId branch) \<longrightarrow> idMap steps (target_of branch) = Some targetStep \<longrightarrow>
        step_id targetStep \<in> newVisited \<longrightarrow>
        fst (buildTree_branches rnd steps (branch # rest) newVisited k) =
          set_label (branch_label branch) (loopNode targetStep (rnd k)) #
          fst (buildTree_branches rnd steps rest newVisited (k + 1)))
   \<and> is_loop_node (loopNode step suffix)
   \<and> dn_children (loopNode step suffix) = []
   \<and> loop_target_number (loopNode step suffix) = Some (stepNumber step)
   \<and> dn_id (loopNode step suffix) = ''loop-'' @ step_id step @ ''-'' @ suffix
   \<and> dn_id (loopNode step suffix) \<noteq> step_id step
   \<and> k \<le> snd (buildTree rnd steps step visited k)
   \<and> map loop_suffix (loop_nodes (fst (buildTree rnd steps step visited k))) =
       map rnd [k ..< snd (buildTree rnd steps step visited k)]
   \<and> (distinct (map rnd [k ..< snd (buildTree rnd steps step visited k)]) \<longrightarrow>
        (\<forall>j \<in> set [k ..< snd (buildTree rnd steps step visited k)]. CHR ''-'' \<notin> set (rnd j)) \<longrightarrow>
        distinct (map dn_id (loop_nodes (fst (buildTree rnd steps step visited k)))))
   \<and> (\<forall>n \<in> set (loop_nodes (fst (buildTree rnd steps step visited k))).
        \<forall>m \<in> set (display_nodes (fst (buildTree rnd steps step visited k))).
          dn_id m = dn_id n \<longrightarrow> is_loop_node m \<or> dn_id n \<in> step_ids (step # steps))
   \<and> treeData rnd cyclic_steps =
       Some (DisplayNode ''s1'' (StepData (cyclic_steps ! 0)) Step None
         [DisplayNode ''s2'' (StepData (cyclic_steps ! 1)) Step (Some ''Go on'')
            [DisplayNode (''loop-s1-'' @ rnd 0)
               (StepData ((cyclic_steps ! 0)
                  \<lparr>action := [CHR 0xE2, CHR 0x86, CHR 0xA9] @ '' Loop to Step 1'',
                    role := ''Process Cycle''\<rparr>))
               Step (Some ''Back'') []]])
   \<and> (\<exists>t. treeData rnd cyclic_steps = Some t \<and> list_ex is_loop_node (display_nodes t))"
proof -
  let ?t = "fst (buildTree rnd steps step visited k)"
  have c1: "height ?t \<le> card (step_ids steps - visited) + 1 + slack steps step"
    by (rule height_bound(1))
  have c2: "steps \<noteq> [] \<longrightarrow> (\<exists>t. treeData rnd steps = Some t \<and> height t \<le> length steps + 1)"
    using treeData_height [of steps rnd] by (rule impI)
  have c3: "step_id step \<in> visited \<longrightarrow>
        buildTree rnd steps step visited k = (loopNode step (rnd k), k + 1)"
    using loop_when_visited [of step visited rnd steps k] by (rule impI)
  have c4: "truthy (targetStepId branch) \<longrightarrow> idMap steps (target_of branch) = Some targetStep \<longrightarrow>
        step_id targetStep \<in> newVisited \<longrightarrow>
        fst (buildTree_branches rnd steps (branch # rest) newVisited k) =
          set_label (branch_label branch) (loopNode targetStep (rnd k)) #
          fst (buildTree_branches rnd steps rest newVisited (k + 1))"
    using branch_to_visited [of branch steps targetStep newVisited rnd rest k] by (intro impI)
  have c5: "is_loop_node (loopNode step suffix)"
    by (rule is_loop_node_loopNode)
  have c6: "dn_children (loopNode step suffix) = []"
    by (simp add: loopNode_def)
  have c7: "loop_target_number (loopNode step suffix) = Some (stepNumber step)"
    by (rule loop_target_number_loopNode)
  have c8: "dn_id (loopNode step suffix) = ''loop-'' @ step_id step @ ''-'' @ suffix"
    by (simp add: loopNode_def)
  have c9: "dn_id (loopNode step suffix) \<noteq> step_id step"
    by (rule loopNode_id_new)
  have c10: "k \<le> snd (buildTree rnd steps step visited k)"
    by (rule conjunct1 [OF loop_draws(1)])
  have c11: "map loop_suffix (loop_nodes ?t) = map rnd [k ..< snd (buildTree rnd steps step visited k)]"
    by (rule conjunct2 [OF loop_draws(1)])
  have c12: "distinct (map rnd [k ..< snd (buildTree rnd steps step visited k)]) \<longrightarrow>
        (\<forall>j \<in> set [k ..< snd (buildTree rnd steps step visited k)]. CHR ''-'' \<notin> set (rnd j)) \<longrightarrow>
        distinct (map dn_id (loop_nodes ?t))"
    using loop_ids_distinct [of rnd k steps step visited] by (intro impI)
  have c13: "\<forall>n \<in> set (loop_nodes ?t). \<forall>m \<in> set (display_nodes ?t).
          dn_id m = dn_id n \<longrightarrow> is_loop_node m \<or> dn_id n \<in> step_ids (step # steps)"
    using loop_id_shared [of _ rnd steps step visited k] by blast
  note c14 = cyclic_tree [of rnd]
  note c15 = cyclic_tree_loop [of rnd]
  show ?thesis
    by (intro conjI c1 c2 c3 c4 c5 c6 c7 c8 c9 c10 c11 c12 c13 c14 c15)
qed

theorem buildTree_terminates_with_loop_nodes_witness:
  "twice_back_steps \<noteq> []
   \<and> inj distinct_draws
   \<and> (\<forall>j. CHR ''-'' \<notin> set (distinct_draws j))
   \<and> treeData distinct_draws twice_back_steps =
       Some (DisplayNode ''s1'' (StepData (twice_back_steps ! 0)) Step None
         [DisplayNode ''s2'' (StepData (twice_back_steps ! 1)) Step (Some ''Go on'')
            [DisplayNode ''loop-s1-x''
               (StepData ((twice_back_steps ! 0)
                  \<lparr>action := [CHR 0xE2, CHR 0x86, CHR 0xA9] @ '' Loop to Step 12'',
                    role := ''Process Cycle''\<rparr>))
               Step (Some ''Back'') [],
             DisplayNode ''loop-s1-xx''
               (StepData ((twice_back_steps ! 0)
                  \<lparr>action := [CHR 0xE2, CHR 0x86, CHR 0xA9] @ '' Loop to Step 12'',
                    role := ''Process Cycle''\<rparr>))
               Step (Some ''Again'') []]])
   \<and> (\<exists>t. treeData distinct_draws twice_back_steps = Some t \<and> height t \<le> 3)
   \<and> distinct (map dn_id (loop_nodes (fst (buildTree distinct_draws twice_back_steps (twice_back_steps ! 0) {} 0))))
   \<and> step_id (twice_back_steps ! 0) \<in> {''s1'', ''s2''}
   \<and> buildTree distinct_draws twice_back_steps (twice_back_steps ! 0) {''s1'', ''s2''} 0 =
       (loopNode (twice_back_steps ! 0) ''x'', 1)"
proof -
  have n: "twice_back_steps \<noteq> []" and l: "length twice_back_steps = 2"
    and v: "step_id (twice_back_steps ! 0) \<in> {''s1'', ''s2''}"
    by (simp_all add: twice_back_steps_def)
  have d: "\<forall>j. CHR ''-'' \<notin> set (distinct_draws j)"
    using distinct_draws_no_dash by (rule allI)
  note th = buildTree_terminates_with_loop_nodes
  note rest = conjunct2 [OF th]
  have a: "twice_back_steps \<noteq> [] \<longrightarrow>
        (\<exists>t. treeData distinct_draws twice_back_steps = Some t \<and> height t \<le> length twice_back_steps + 1)"
    by (rule conjunct1 [OF conjunct2 [OF th]])
  have b: "step_id (twice_back_steps ! 0) \<in> {''s1'', ''s2''} \<longrightarrow>
        buildTree distinct_draws twice_back_steps (twice_back_steps ! 0) {''s1'', ''s2''} 0 =
          (loopNode (twice_back_steps ! 0) (distinct_draws 0), 0 + 1)"
    by (rule conjunct1 [OF conjunct2 [OF conjunct2 [OF th]]])
  note r3 = conjunct2 [OF conjunct2 [OF conjunct2 [OF th]]]
  note r6 = conjunct2 [OF conjunct2 [OF conjunct2 [OF r3]]]
  note r9 = conjunct2 [OF conjunct2 [OF conjunct2 [OF r6]]]
  let ?k' = "snd (buildTree distinct_draws twice_back_steps (twice_back_steps ! 0) {} 0)"
  have c: "distinct (map distinct_draws [0 ..< ?k']) \<longrightarrow>
        (\<forall>j \<in> set [0 ..< ?k']. CHR ''-'' \<notin> set (distinct_draws j)) \<longrightarrow>
        distinct (map dn_id (loop_nodes (fst (buildTree distinct_draws twice_back_steps (twice_back_steps ! 0) {} 0))))"
    by (rule conjunct1 [OF conjunct2 [OF conjunct2 [OF r9]]])
  have dd: "distinct (map distinct_draws [0 ..< ?k'])"
    using inj_on_subset [OF inj_distinct_draws subset_UNIV] by (simp add: distinct_map)
  have nd: "\<forall>j \<in> set [0 ..< ?k']. CHR ''-'' \<notin> set (distinct_draws j)"
    using distinct_draws_no_dash by blast
  from a n l have h: "\<exists>t. treeData distinct_draws twice_back_steps = Some t \<and> height t \<le> 3"
    by simp
  from mp [OF b v] have lp: "buildTree distinct_draws twice_back_steps (twice_back_steps ! 0) {''s1'', ''s2''} 0 =
       (loopNode (twice_back_steps ! 0) ''x'', 1)"
    by (simp add: distinct_draws_values)
  from c dd nd
  have f: "distinct (map dn_id (loop_nodes (fst (buildTree distinct_draws twice_back_steps (twice_back_steps ! 0) {} 0))))"
    by (rule mp [OF mp])
  show ?thesis
    by (intro conjI n inj_distinct_draws d twice_back_tree h f v lp)
qed

subsection \<open>Branches without a resolvable target\<close>

lemma idMap_foldl_dom:
  "dom (foldl (\<lambda>m s. m(step_id s \<mapsto> s)) m0 steps) = dom m0 \<union> step_ids steps"
  by (induction steps arbitrary: m0) (auto simp: step_ids_def)

lemma idMap_None_iff: "idMap steps t = None \<longleftrightarrow> t \<notin> step_ids steps"
proof -
  have "dom (idMap steps) = step_ids steps"
    using idMap_foldl_dom [of Map.empty steps] by (simp add: idMap_def)
  then show ?thesis by (metis domIff)
qed

lemma branches_dangling:
  "dangling steps branch \<Longrightarrow>
   buildTree_branches rnd steps (branch # rest) nv k = buildTree_branches rnd steps rest nv k"
  by (simp add: dangling_def target_of_def idMap_None_iff [symmetric])

lemma branches_unresolved:
  "\<not> truthy (targetStepId branch) \<Longrightarrow>
   fst (buildTree_branches rnd steps (branch # rest) nv k) =
     placeholderNode branch # fst (buildTree_branches rnd steps rest nv k)"
  by (simp split: prod.splits)

lemma branches_resolved:
  "truthy (targetStepId branch) \<Longrightarrow> idMap steps (target_of branch) = Some targetStep \<Longrightarrow>
   fst (buildTree_branches rnd steps (branch # rest) nv k) =
     set_label (branch_label branch) (fst (buildTree rnd steps targetStep nv k)) #
     fst (buildTree_branches rnd steps rest nv (snd (buildTree rnd steps targetStep nv k)))"
  by (simp add: target_of_def split: prod.splits)

lemma branches_filter:
  "buildTree_branches rnd steps bs nv k =
   buildTree_branches rnd steps (filter (\<lambda>b. \<not> dangling steps b) bs) nv k"
proof (induction bs arbitrary: k)
  case Nil
  then show ?case by simp
next
  case (Cons b bs)
  show ?case
  proof (cases "dangling steps b")
    case True
    then show ?thesis using Cons.IH branches_dangling by simp
  next
    case False
    then show ?thesis using Cons.IH by (simp split: prod.splits option.splits)
  qed
qed

lemma branches_length:
  "length (fst (buildTree_branches rnd steps bs nv k)) = length (filter (\<lambda>b. \<not> dangling steps b) bs)"
proof (induction bs arbitrary: k)
  case Nil
  then show ?case by simp
next
  case (Cons b bs)
  show ?case
  proof (cases "truthy (targetStepId b)")
    case False
    then have "\<not> dangling steps b" by (simp add: dangling_def)
    then show ?thesis using Cons.IH branches_unresolved [OF False] by simp
  next
    case True
    show ?thesis
    proof (cases "idMap steps (target_of b)")
      case None
      then have "dangling steps b" using True by (simp add: dangling_def idMap_None_iff)
      then show ?thesis using Cons.IH branches_dangling by simp
    next
      case (Some s)
      then have "\<not> dangling steps b" using idMap_None_iff [of steps "target_of b"]
        by (simp add: dangling_def)
      then show ?thesis using Cons.IH branches_resolved [OF True Some] by simp
    qed
  qed
qed

lemma decision_children:
  assumes "step_type step = Decision" and "branches step = Some bs" and "step_id step \<notin> visited"
  shows "dn_children (fst (buildTree rnd steps step visited k)) =
         fst (buildTree_branches rnd steps bs (insert (step_id step) visited) k)"
  using assms by (simp add: buildTree.simps [of rnd steps step visited k] split: prod.splits)

text \<open>
  Claim C10, as stated, fails for the empty string: it is a target that is not null and
  is the identifier of no step, and the branch still gets its placeholder child, because
  \<open>if (branch.targetStepId)\<close> is false for it.
\<close>

theorem empty_target_counterexample:
  "(let b = \<lparr>branch_id = ''b1'', branch_label = ''Maybe'', targetStepId = Some []\<rparr>;
        d = \<lparr>step_id = ''s1'', stepNumber = 1, step_type = Decision, action = ''Check'',
             step_description = [], role = ''User'', isEndState = False,
             branches = Some [b]\<rparr>
    in targetStepId b \<noteq> None \<and> target_of b \<notin> step_ids [d]
       \<and> dn_children (fst (buildTree (\<lambda>k. ''r4nd0m'') [d] d {} 0)) = [placeholderNode b])"
  by (simp add: Let_def target_of_def step_ids_def buildTree.simps truthy_def)

text \<open>
  Claim C10, amended. A branch whose target is a non-empty string that is the identifier
  of no step of the list contributes nothing: the children built for the branches are
  those built for the branches that are not dangling, one child for each of them. A
  branch with no target, or with the empty string as its target, contributes its
  placeholder leaf.
\<close>

theorem dangling_branch_contributes_no_child:
  "(dangling steps branch \<longrightarrow>
      buildTree_branches rnd steps (branch # rest) newVisited k =
      buildTree_branches rnd steps rest newVisited k)
   \<and> (\<not> truthy (targetStepId branch) \<longrightarrow>
      fst (buildTree_branches rnd steps (branch # rest) newVisited k) =
        placeholderNode branch # fst (buildTree_branches rnd steps rest newVisited k))
   \<and> buildTree_branches rnd steps bs newVisited k =
       buildTree_branches rnd steps (filter (\<lambda>b. \<not> dangling steps b) bs) newVisited k
   \<and> length (fst (buildTree_branches rnd steps bs newVisited k)) =
       length (filter (\<lambda>b. \<not> dangling steps b) bs)
   \<and> (step_type step = Decision \<longrightarrow> branches step = Some bs \<longrightarrow> step_id step \<notin> visited \<longrightarrow>
      dn_children (fst (buildTree rnd steps step visited k)) =
        fst (buildTree_branches rnd steps (filter (\<lambda>b. \<not> dangling steps b) bs)
               (insert (step_id step) visited) k))"
proof -
  have "step_type step = Decision \<longrightarrow> branches step = Some bs \<longrightarrow> step_id step \<notin> visited \<longrightarrow>
      dn_children (fst (buildTree rnd steps step visited k)) =
        fst (buildTree_branches rnd steps (filter (\<lambda>b. \<not> dangling steps b) bs)
               (insert (step_id step) visited) k)"
    using decision_children [of step bs visited rnd steps k]
      branches_filter [of rnd steps bs "insert (step_id step) visited" k]
    by simp
  then show ?thesis
    using branches_dangling [of steps branch rnd rest newVisited k]
      branches_unresolved [of branch rnd steps rest newVisited k]
      branches_filter [of rnd steps bs newVisited k]
      branches_length [of rnd steps bs newVisited k]
    by blast
qed

theorem dangling_branch_contributes_no_child_witness:
  "(let lost = \<lparr>branch_id = ''b1'', branch_label = ''Lost'', targetStepId = Some ''gone''\<rparr>;
        unset = \<lparr>branch_id = ''b2'', branch_label = ''Open'', targetStepId = None\<rparr>;
        d = \<lparr>step_id = ''s1'', stepNumber = 1, step_type = Decision, action = ''Check'',
             step_description = [], role = ''User'', isEndState = False,
             branches = Some [lost, unset]\<rparr>
    in dangling [d] lost \<and> \<not> truthy (targetStepId unset) \<and> \<not> dangling [d] unset
       \<and> dn_children (fst (buildTree (\<lambda>k. ''r4nd0m'') [d] d {} 0)) = [placeholderNode unset])"
proof -
  let ?lost = "\<lparr>branch_id = ''b1'', branch_label = ''Lost'', targetStepId = Some ''gone''\<rparr>"
  let ?unset = "\<lparr>branch_id = ''b2'', branch_label = ''Open'', targetStepId = None\<rparr>"
  let ?d = "\<lparr>step_id = ''s1'', stepNumber = 1, step_type = Decision, action = ''Check'',
             step_description = [], role = ''User'', isEndState = False,
             branches = Some [?lost, ?unset]\<rparr>"
  have a: "dangling [?d] ?lost" and b: "\<not> truthy (targetStepId ?unset)"
    and c: "\<not> dangling [?d] ?unset"
    by (simp_all add: dangling_def truthy_def target_of_def step_ids_def)
  have d: "step_type ?d = Decision" "branches ?d = Some [?lost, ?unset]" "step_id ?d \<notin> {}"
    by simp_all
  from dangling_branch_contributes_no_child
    [of "[?d]" ?unset "\<lambda>k. ''r4nd0m''" "[]" "{''s1''}" 0 "[?lost, ?unset]" ?d "{}"]
  have "dn_children (fst (buildTree (\<lambda>k. ''r4nd0m'') [?d] ?d {} 0)) =
        fst (buildTree_branches (\<lambda>k. ''r4nd0m'') [?d] [?unset] {''s1''} 0)"
    and "fst (buildTree_branches (\<lambda>k. ''r4nd0m'') [?d] [?unset] {''s1''} 0) = [placeholderNode ?unset]"
    using a b c d by simp_all
  then show ?thesis using a b c by (simp add: Let_def)
qed

section \<open>Properties of the mesh-to-tree projection\<close>

subsection \<open>One interaction at a time\<close>

lemma scanLinks_Cons:
  "scanLinks data f r actor (link # rest) visited =
     (case link_child data f r actor visited link of
        None \<Rightarrow> scanLinks data f r actor rest visited
      | Some (ta, tid, lab) \<Rightarrow>
          (case scanLinks data f r actor rest (insert tid visited) of
             (cs, v') \<Rightarrow> ((ta, lab) # cs, v')))"
proof -
  let ?out = "link_source link = actor_id actor \<and> link_target link \<notin> visited"
  let ?in = "link_target link = actor_id actor \<and> link_source link \<notin> visited"
  consider (filtered) "\<not> matches f link"
    | (out) "matches f link" ?out
    | (inc) "matches f link" "\<not> ?out" ?in
    | (none) "matches f link" "\<not> ?out" "\<not> ?in"
    by blast
  then show ?thesis
  proof cases
    case filtered
    then show ?thesis by (simp add: link_child_def matches_def)
  next
    case out
    then have m: "\<not> (truthy f \<and> Some (link_data link) \<noteq> f)" by (auto simp: matches_def)
    show ?thesis
    proof (cases "link_target link = []")
      case True
      then show ?thesis using out m by (simp add: link_child_def truthy_def Let_def)
    next
      case False
      then show ?thesis using out m
        by (cases "find (\<lambda>a. actor_id a = link_target link) (actors data)")
          (auto simp add: link_child_def truthy_def Let_def)
    qed
  next
    case inc
    then have m: "\<not> (truthy f \<and> Some (link_data link) \<noteq> f)" by (auto simp: matches_def)
    show ?thesis
    proof (cases "link_source link = []")
      case True
      then show ?thesis using inc m by (simp add: link_child_def truthy_def Let_def)
    next
      case False
      then show ?thesis using inc m
        by (cases "find (\<lambda>a. actor_id a = link_source link) (actors data)")
          (auto simp add: link_child_def truthy_def Let_def)
    qed
  next
    case none
    then have m: "\<not> (truthy f \<and> Some (link_data link) \<noteq> f)" by (auto simp: matches_def)
    show ?thesis using none m by (auto simp add: link_child_def truthy_def Let_def)
  qed
qed

declare scanLinks.simps(2) [simp del]

lemma link_child_Some:
  assumes "link_child data f r actor visited link = Some (ta, tid, lab)"
  shows "matches f link" and "tid \<notin> visited" and "tid \<in> actor_ids data" and "actor_id ta = tid"
    and "edge_of_link (actor_id actor, tid, Some lab) link"
  using assms
  by (auto simp: link_child_def edge_of_link_def split: if_splits option.splits dest!: find_actor_id)

lemma scanLinks_children:
  "scanLinks data f r actor links visited = (cs, v) \<Longrightarrow> (a, l) \<in> set cs \<Longrightarrow>
     \<exists>link \<in> set links. matches f link \<and> edge_of_link (actor_id actor, actor_id a, Some l) link"
proof (induction links arbitrary: visited cs v)
  case Nil
  then show ?case by simp
next
  case (Cons link rest)
  show ?case
  proof (cases "link_child data f r actor visited link")
    case None
    then have "scanLinks data f r actor rest visited = (cs, v)"
      using Cons.prems(1) by (simp add: scanLinks_Cons)
    from Cons.IH [OF this Cons.prems(2)] show ?thesis by auto
  next
    case (Some c)
    obtain ta tid lab where c: "c = (ta, tid, lab)" by (cases c)
    obtain cs' v' where r: "scanLinks data f r actor rest (insert tid visited) = (cs', v')"
      by (cases "scanLinks data f r actor rest (insert tid visited)")
    have cs: "cs = (ta, lab) # cs'"
      using Cons.prems(1) Some c r by (simp add: scanLinks_Cons)
    show ?thesis
    proof (cases "(a, l) = (ta, lab)")
      case True
      then show ?thesis using link_child_Some [OF Some [unfolded c]] by auto
    next
      case False
      then have "(a, l) \<in> set cs'" using Cons.prems(2) cs by auto
      from Cons.IH [OF r this] show ?thesis by auto
    qed
  qed
qed

lemma scanLinks_ids:
  "scanLinks data f r actor links visited = (cs, v) \<Longrightarrow>
     distinct (child_ids cs) \<and> set (child_ids cs) \<inter> visited = {} \<and> v = visited \<union> set (child_ids cs)"
proof (induction links arbitrary: visited cs v)
  case Nil
  then show ?case by (simp add: child_ids_def)
next
  case (Cons link rest)
  show ?case
  proof (cases "link_child data f r actor visited link")
    case None
    then have "scanLinks data f r actor rest visited = (cs, v)"
      using Cons.prems by (simp add: scanLinks_Cons)
    from Cons.IH [OF this] show ?thesis .
  next
    case (Some c)
    obtain ta tid lab where c: "c = (ta, tid, lab)" by (cases c)
    obtain cs' v' where r: "scanLinks data f r actor rest (insert tid visited) = (cs', v')"
      by (cases "scanLinks data f r actor rest (insert tid visited)")
    have cs: "cs = (ta, lab) # cs'" and v: "v = v'"
      using Cons.prems Some c r by (simp_all add: scanLinks_Cons)
    have t: "tid \<notin> visited" "actor_id ta = tid"
      using link_child_Some [OF Some [unfolded c]] by simp_all
    from Cons.IH [OF r] show ?thesis using cs v t by (auto simp: child_ids_def)
  qed
qed

subsection \<open>Edges come from matching interactions\<close>

lemma tn_id_buildNode [simp]: "tn_id (fst (buildNode data f r actor visited)) = actor_id actor"
  by (simp add: buildNode.simps treeNode_def split: prod.splits)

lemma set_linkLabel_simps [simp]:
  "tn_id (set_linkLabel l n) = tn_id n"
  "tn_linkLabel (set_linkLabel l n) = Some l"
  "tn_children (set_linkLabel l n) = tn_children n"
  "tree_edges (set_linkLabel l n) = tree_edges n"
  "tree_ids (set_linkLabel l n) = tree_ids n"
  by (cases n; simp add: set_linkLabel_def)+

lemma children_shape:
  "map (\<lambda>c. (tn_id c, tn_linkLabel c)) (fst (buildNode_children data f r cs visited)) =
   map (\<lambda>(a, l). (actor_id a, Some l)) cs"
proof (induction cs arbitrary: visited)
  case Nil
  then show ?case by simp
next
  case (Cons c cs)
  obtain a l where c: "c = (a, l)" by (cases c)
  obtain n v1 where b: "buildNode data f r a visited = (n, v1)"
    by (cases "buildNode data f r a visited")
  obtain ns v2 where r: "buildNode_children data f r cs v1 = (ns, v2)"
    by (cases "buildNode_children data f r cs v1")
  have "tn_id n = actor_id a" using tn_id_buildNode [of data f r a visited] b by simp
  then show ?case using Cons.IH [of v1] b c r by simp
qed

lemma tree_edges_treeNode:
  "tree_edges (treeNode actor kids) =
     map (\<lambda>c. (actor_id actor, tn_id c, tn_linkLabel c)) kids @ concat (map tree_edges kids)"
  by (simp add: treeNode_def)

lemma edges_from_links:
  "\<forall>e \<in> set (tree_edges (fst (buildNode data f r actor visited))). from_matching_link data f e"
  "\<forall>n \<in> set (fst (buildNode_children data f r cs visited)).
     \<forall>e \<in> set (tree_edges n). from_matching_link data f e"
proof (induction data f r actor visited and data f r cs visited
    rule: buildNode_buildNode_children.induct)
  case (1 data dataFilter relevant actor visited)
  obtain cs v1 where s: "scanLinks data dataFilter relevant actor (interactions data) visited = (cs, v1)"
    by (cases "scanLinks data dataFilter relevant actor (interactions data) visited")
  obtain kids v2 where k: "buildNode_children data dataFilter relevant cs v1 = (kids, v2)"
    by (cases "buildNode_children data dataFilter relevant cs v1")
  have b: "fst (buildNode data dataFilter relevant actor visited) = treeNode actor kids"
    using s k by (simp add: buildNode.simps)
  have shape: "map (\<lambda>c. (tn_id c, tn_linkLabel c)) kids = map (\<lambda>(a, l). (actor_id a, Some l)) cs"
    using children_shape [of data dataFilter relevant cs v1] k by simp
  have direct: "from_matching_link data dataFilter (actor_id actor, tn_id c, tn_linkLabel c)"
    if "c \<in> set kids" for c
  proof -
    have "(tn_id c, tn_linkLabel c) \<in> set (map (\<lambda>(a, l). (actor_id a, Some l)) cs)"
      using that shape by (metis (no_types, lifting) image_eqI list.set_map)
    then obtain a l where al: "(a, l) \<in> set cs" "tn_id c = actor_id a" "tn_linkLabel c = Some l"
      by auto
    from scanLinks_children [OF s al(1)] show ?thesis
      using al by (auto simp: from_matching_link_def list_ex_iff)
  qed
  have below: "\<forall>n \<in> set kids. \<forall>e \<in> set (tree_edges n). from_matching_link data dataFilter e"
    using "1.IH" [OF s [symmetric]] k by simp
  show ?case unfolding b tree_edges_treeNode using direct below by auto
next
  case (2 data dataFilter relevant visited)
  then show ?case by simp
next
  case (3 data dataFilter relevant actor interaction rest visited)
  obtain n v1 where b: "buildNode data dataFilter relevant actor visited = (n, v1)"
    by (cases "buildNode data dataFilter relevant actor visited")
  obtain ns v2 where r: "buildNode_children data dataFilter relevant rest v1 = (ns, v2)"
    by (cases "buildNode_children data dataFilter relevant rest v1")
  have "\<forall>e \<in> set (tree_edges n). from_matching_link data dataFilter e"
    using "3.IH"(1) b by simp
  moreover have "\<forall>m \<in> set ns. \<forall>e \<in> set (tree_edges m). from_matching_link data dataFilter e"
    using "3.IH"(2) [OF b [symmetric]] r by simp
  ultimately show ?case using b r by simp
qed

lemma tree_ids_edges:
  "set (tree_ids t) = insert (tn_id t) ((\<lambda>e. fst (snd e)) ` set (tree_edges t))"
proof (induction t)
  case (SystemTreeNode i l nt na s d ll cs)
  have "set (concat (map tree_ids cs)) =
        tn_id ` set cs \<union> (\<Union>c \<in> set cs. (\<lambda>e. fst (snd e)) ` set (tree_edges c))"
    using SystemTreeNode.IH by auto
  moreover have "(\<lambda>e. fst (snd e)) ` set (tree_edges (SystemTreeNode i l nt na s d ll cs)) =
        tn_id ` set cs \<union> (\<Union>c \<in> set cs. (\<lambda>e. fst (snd e)) ` set (tree_edges c))"
    by (simp add: image_Un image_UN image_image)
  ultimately show ?case by simp
qed

lemma from_matching_link_endpoints:
  assumes "from_matching_link data (Some f) (p, c, l)" and "f \<noteq> []"
  shows "c \<in> endpoints data f" and "p \<in> endpoints data f"
    and "l = Some (arrow_out @ f) \<or> l = Some (arrow_in @ f)"
  using assms
  by (auto simp: from_matching_link_def list_ex_iff matches_def truthy_def edge_of_link_def endpoints_def)

lemma relevantActors_foldl:
  "foldl (\<lambda>r i. if Some (link_data i) = Some f
                          then insert (link_target i) (insert (link_source i) r) else r) r0 links
   = r0 \<union> set (concat (map (\<lambda>i. [link_source i, link_target i]) (filter (\<lambda>i. link_data i = f) links)))"
  by (induction links arbitrary: r0) auto

lemma relevantActors_endpoints: "f \<noteq> [] \<Longrightarrow> relevantActors data (Some f) = endpoints data f"
  using relevantActors_foldl [of f "{}" "interactions data"]
  by (simp add: relevantActors_def endpoints_def truthy_def)

subsection \<open>No actor appears twice\<close>

lemma tree_ids_treeNode: "tree_ids (treeNode actor kids) = actor_id actor # concat (map tree_ids kids)"
  by (simp add: treeNode_def)

lemma visited_tree_ids:
  "actor_id actor \<in> visited \<Longrightarrow>
     (case buildNode data f r actor visited of
        (t, v') \<Rightarrow> distinct (tree_ids t) \<and> set (tree_ids t) = insert (actor_id actor) (v' - visited)
                   \<and> visited \<subseteq> v')"
  "distinct (child_ids cs) \<Longrightarrow> set (child_ids cs) \<subseteq> visited \<Longrightarrow>
     (case buildNode_children data f r cs visited of
        (ns, v') \<Rightarrow> distinct (concat (map tree_ids ns))
                    \<and> set (concat (map tree_ids ns)) = set (child_ids cs) \<union> (v' - visited)
                    \<and> visited \<subseteq> v')"
proof (induction data f r actor visited and data f r cs visited
    rule: buildNode_buildNode_children.induct)
  case (1 data dataFilter relevant actor visited)
  obtain cs v1 where s: "scanLinks data dataFilter relevant actor (interactions data) visited = (cs, v1)"
    by (cases "scanLinks data dataFilter relevant actor (interactions data) visited")
  obtain kids v2 where k: "buildNode_children data dataFilter relevant cs v1 = (kids, v2)"
    by (cases "buildNode_children data dataFilter relevant cs v1")
  have b: "buildNode data dataFilter relevant actor visited = (treeNode actor kids, v2)"
    using s k by (simp add: buildNode.simps)
  have ids: "distinct (child_ids cs)" "set (child_ids cs) \<inter> visited = {}"
    "v1 = visited \<union> set (child_ids cs)"
    using scanLinks_ids [OF s] by simp_all
  have "set (child_ids cs) \<subseteq> v1" using ids by blast
  from "1.IH" [OF s [symmetric] ids(1) this]
  have q: "distinct (concat (map tree_ids kids))"
    "set (concat (map tree_ids kids)) = set (child_ids cs) \<union> (v2 - v1)" "v1 \<subseteq> v2"
    using k by simp_all
  have notin: "actor_id actor \<notin> set (concat (map tree_ids kids))"
    using q(2) ids "1.prems" by blast
  have eq: "set (child_ids cs) \<union> (v2 - v1) = v2 - visited"
    using ids q(3) by blast
  have sub: "visited \<subseteq> v2" using ids q(3) by blast
  have "distinct (tree_ids (treeNode actor kids))"
    using notin q(1) by (simp add: tree_ids_treeNode)
  moreover have "set (tree_ids (treeNode actor kids)) = insert (actor_id actor) (v2 - visited)"
    using q(2) eq by (simp add: tree_ids_treeNode)
  ultimately show ?case unfolding b using sub by simp
next
  case (2 data dataFilter relevant visited)
  then show ?case by (simp add: child_ids_def)
next
  case (3 data dataFilter relevant actor interaction rest visited)
  obtain n v1 where b: "buildNode data dataFilter relevant actor visited = (n, v1)"
    by (cases "buildNode data dataFilter relevant actor visited")
  obtain ns v2 where r: "buildNode_children data dataFilter relevant rest v1 = (ns, v2)"
    by (cases "buildNode_children data dataFilter relevant rest v1")
  have a: "actor_id actor \<in> visited" "actor_id actor \<notin> set (child_ids rest)"
    "distinct (child_ids rest)" "set (child_ids rest) \<subseteq> visited"
    using "3.prems" by (simp_all add: child_ids_def)
  have p: "distinct (tree_ids n)" "set (tree_ids n) = insert (actor_id actor) (v1 - visited)"
    "visited \<subseteq> v1"
    using "3.IH"(1) [OF a(1)] b by simp_all
  have "set (child_ids rest) \<subseteq> v1" using a(4) p(3) by blast
  from "3.IH"(2) [OF b [symmetric] a(3) this]
  have q: "distinct (concat (map tree_ids ns))"
    "set (concat (map tree_ids ns)) = set (child_ids rest) \<union> (v2 - v1)" "v1 \<subseteq> v2"
    using r by simp_all
  have disj: "set (tree_ids n) \<inter> set (concat (map tree_ids ns)) = {}"
    unfolding p(2) q(2) using a(1,2,4) p(3) by auto
  have c: "set (child_ids ((actor, interaction) # rest)) = insert (actor_id actor) (set (child_ids rest))"
    by (simp add: child_ids_def)
  have "set (child_ids ((actor, interaction) # rest)) \<union> (v2 - visited)
      = set (tree_ids n) \<union> set (concat (map tree_ids ns))"
    unfolding c p(2) q(2) using p(3) q(3) by auto
  moreover have "visited \<subseteq> v2" using p(3) q(3) by auto
  ultimately show ?case using b r p(1) q(1) disj by simp
qed

lemma buildSystemTree_distinct:
  assumes "buildSystemTree data rootId dataFilter = Some t"
  shows "distinct (tree_ids t)" and "tn_id t = rootId"
proof -
  obtain rootActor where f: "find (\<lambda>a. actor_id a = rootId) (actors data) = Some rootActor"
    and t: "t = fst (buildNode data dataFilter (relevantActors data dataFilter) rootActor {rootId})"
    using assms by (auto simp: buildSystemTree_def split: option.splits)
  have i: "actor_id rootActor = rootId" using find_actor_id [OF f] by simp
  then have "actor_id rootActor \<in> {rootId}" by simp
  from visited_tree_ids(1) [OF this, of data dataFilter "relevantActors data dataFilter"]
  show "distinct (tree_ids t)" using t by (simp split: prod.splits)
  show "tn_id t = rootId" using t i by simp
qed

subsection \<open>The example\<close>

lemma mesh_no_filter:
  "buildSystemTree mesh_example ''A'' None =
     Some (treeNode actorA
             [set_linkLabel (arrow_out @ ''X'') (treeNode actorB []),
              set_linkLabel (arrow_out @ ''Y'') (treeNode actorC [])])"
  by (simp add: buildSystemTree_def mesh_example_def relevantActors_def truthy_def Let_def
      buildNode.simps scanLinks.simps actorA_def actorB_def actorC_def)

lemma mesh_filter_Y:
  "buildSystemTree mesh_example ''A'' (Some ''Y'') =
     Some (treeNode actorA [set_linkLabel (arrow_out @ ''Y'') (treeNode actorC [])])"
  by (simp add: buildSystemTree_def mesh_example_def relevantActors_def truthy_def Let_def
      buildNode.simps scanLinks.simps actorA_def actorB_def actorC_def)

lemma mesh_filter_Y_root_B:
  "buildSystemTree mesh_example ''B'' (Some ''Y'') = Some (treeNode actorB [])"
  by (simp add: buildSystemTree_def mesh_example_def relevantActors_def truthy_def Let_def
      buildNode.simps scanLinks.simps actorA_def actorB_def actorC_def)

text \<open>
  Claim C1, as stated, fails: in the tree of the example rooted at A with no filter,
  C is a child of the root A and is not below B.
\<close>

theorem mesh_example_counterexample:
  "\<exists>t. buildSystemTree mesh_example ''A'' None = Some t
       \<and> ''C'' \<in> set (map tn_id (tn_children t))
       \<and> ''C'' \<notin> set (descendants_of ''B'' t)"
  by (auto simp add: mesh_no_filter treeNode_def set_linkLabel_def descendants_of_def
      actorA_def actorB_def actorC_def)

text \<open>
  Claim C1, amended. No tree the projection returns has an actor twice, and its root is
  the root actor. For the example rooted at A with no filter the tree is A with the two
  children B and C, in this order, both leaves: C appears exactly once, as a child of A,
  because the scan of A's interactions marks B and then C visited before the projection
  descends into B.
\<close>

theorem mesh_projection_visits_each_actor_once:
  "(buildSystemTree data rootId dataFilter = Some t \<longrightarrow> distinct (tree_ids t) \<and> tn_id t = rootId)
   \<and> buildSystemTree mesh_example ''A'' None =
       Some (treeNode actorA
               [set_linkLabel (arrow_out @ ''X'') (treeNode actorB []),
                set_linkLabel (arrow_out @ ''Y'') (treeNode actorC [])])
   \<and> (\<exists>t. buildSystemTree mesh_example ''A'' None = Some t
          \<and> tree_ids t = [''A'', ''B'', ''C'']
          \<and> count_list (tree_ids t) ''C'' = 1
          \<and> map tn_id (tn_children t) = [''B'', ''C'']
          \<and> descendants_of ''B'' t = [])"
proof -
  have "\<exists>t. buildSystemTree mesh_example ''A'' None = Some t
          \<and> tree_ids t = [''A'', ''B'', ''C'']
          \<and> count_list (tree_ids t) ''C'' = 1
          \<and> map tn_id (tn_children t) = [''B'', ''C'']
          \<and> descendants_of ''B'' t = []"
    by (auto simp add: mesh_no_filter treeNode_def set_linkLabel_def descendants_of_def
        actorA_def actorB_def actorC_def)
  moreover have "buildSystemTree data rootId dataFilter = Some t \<longrightarrow>
      distinct (tree_ids t) \<and> tn_id t = rootId"
    using buildSystemTree_distinct [of data rootId dataFilter t] by simp
  ultimately show ?thesis
    using mesh_no_filter by (intro conjI)
qed

theorem mesh_projection_visits_each_actor_once_witness:
  "(let t = treeNode actorA
              [set_linkLabel (arrow_out @ ''X'') (treeNode actorB []),
               set_linkLabel (arrow_out @ ''Y'') (treeNode actorC [])]
    in buildSystemTree mesh_example ''A'' None = Some t \<and> distinct (tree_ids t) \<and> tn_id t = ''A'')"
proof -
  let ?t = "treeNode actorA
              [set_linkLabel (arrow_out @ ''X'') (treeNode actorB []),
               set_linkLabel (arrow_out @ ''Y'') (treeNode actorC [])]"
  have b: "buildSystemTree mesh_example ''A'' None = Some ?t"
    by (rule mesh_no_filter)
  from mesh_projection_visits_each_actor_once [of mesh_example "''A''" None ?t] b
  have "distinct (tree_ids ?t) \<and> tn_id ?t = ''A''" by blast
  then show ?thesis using b by (simp add: Let_def)
qed

text \<open>
  Claim C8, as stated, fails for the root: rooted at B with filter Y, the tree of the
  example is B alone, and B is not an endpoint of any interaction with payload Y.
\<close>

theorem filter_root_counterexample:
  "\<exists>t. buildSystemTree mesh_example ''B'' (Some ''Y'') = Some t
       \<and> ''B'' \<in> set (tree_ids t)
       \<and> ''B'' \<notin> endpoints mesh_example ''Y''"
proof -
  have "''B'' \<notin> endpoints mesh_example ''Y''"
    by (simp add: endpoints_def mesh_example_def)
  moreover have "''B'' \<in> set (tree_ids (treeNode actorB []))"
    by (simp add: treeNode_def actorB_def)
  ultimately show ?thesis using mesh_filter_Y_root_B by blast
qed

text \<open>
  Claim C8, amended. With a filter active (a non-empty payload), the set used to prune is
  the set of endpoints of the interactions with that payload; every edge of the tree
  comes from an interaction with that payload, and its label is an arrow followed by the
  payload; and every actor of the tree other than the root is an endpoint of such an
  interaction. For the example rooted at A with filter Y the tree is A with the one child
  C: its actors are exactly A and C.
\<close>

theorem filtered_tree_uses_matching_interactions:
  "(f \<noteq> [] \<longrightarrow> relevantActors data (Some f) = endpoints data f)
   \<and> (f \<noteq> [] \<longrightarrow> buildSystemTree data rootId (Some f) = Some t \<longrightarrow>
        (\<forall>e \<in> set (tree_edges t).
           from_matching_link data (Some f) e
           \<and> (snd (snd e) = Some (arrow_out @ f) \<or> snd (snd e) = Some (arrow_in @ f)))
        \<and> (\<forall>a \<in> set (tree_ids t). a = rootId \<or> a \<in> endpoints data f))
   \<and> buildSystemTree mesh_example ''A'' (Some ''Y'') =
       Some (treeNode actorA [set_linkLabel (arrow_out @ ''Y'') (treeNode actorC [])])
   \<and> (\<exists>t. buildSystemTree mesh_example ''A'' (Some ''Y'') = Some t
          \<and> set (tree_ids t) = {''A'', ''C''})"
proof -
  have general: "(\<forall>e \<in> set (tree_edges t).
           from_matching_link data (Some f) e
           \<and> (snd (snd e) = Some (arrow_out @ f) \<or> snd (snd e) = Some (arrow_in @ f)))
        \<and> (\<forall>a \<in> set (tree_ids t). a = rootId \<or> a \<in> endpoints data f)"
    if f: "f \<noteq> []" and b: "buildSystemTree data rootId (Some f) = Some t"
  proof -
    obtain rootActor where
      t: "t = fst (buildNode data (Some f) (relevantActors data (Some f)) rootActor {rootId})"
      using b by (auto simp: buildSystemTree_def split: option.splits)
    have edges: "\<forall>e \<in> set (tree_edges t). from_matching_link data (Some f) e"
      unfolding t by (rule edges_from_links(1))
    have labels: "snd (snd e) = Some (arrow_out @ f) \<or> snd (snd e) = Some (arrow_in @ f)"
      and child: "fst (snd e) \<in> endpoints data f"
      if "e \<in> set (tree_edges t)" for e
      using edges that f from_matching_link_endpoints [of data f "fst e" "fst (snd e)" "snd (snd e)"]
      by simp_all
    have "a = rootId \<or> a \<in> endpoints data f" if "a \<in> set (tree_ids t)" for a
      using that child buildSystemTree_distinct(2) [OF b] tree_ids_edges [of t] by auto
    then show ?thesis using edges labels by blast
  qed
  have "\<exists>t. buildSystemTree mesh_example ''A'' (Some ''Y'') = Some t
          \<and> set (tree_ids t) = {''A'', ''C''}"
    by (simp add: mesh_filter_Y treeNode_def set_linkLabel_def actorA_def actorC_def)
  then show ?thesis
    using general relevantActors_endpoints [of f data] mesh_filter_Y by blast
qed

theorem filtered_tree_uses_matching_interactions_witness:
  "(let t = treeNode actorA [set_linkLabel (arrow_out @ ''Y'') (treeNode actorC [])]
    in ''Y'' \<noteq> [] \<and> buildSystemTree mesh_example ''A'' (Some ''Y'') = Some t
       \<and> tree_edges t = [(''A'', ''C'', Some (arrow_out @ ''Y''))]
       \<and> from_matching_link mesh_example (Some ''Y'') (''A'', ''C'', Some (arrow_out @ ''Y''))
       \<and> ''C'' \<in> endpoints mesh_example ''Y''
       \<and> relevantActors mesh_example (Some ''Y'') = endpoints mesh_example ''Y'')"
proof -
  let ?t = "treeNode actorA [set_linkLabel (arrow_out @ ''Y'') (treeNode actorC [])]"
  have n: "''Y'' \<noteq> []" by simp
  have b: "buildSystemTree mesh_example ''A'' (Some ''Y'') = Some ?t"
    by (rule mesh_filter_Y)
  have e: "tree_edges ?t = [(''A'', ''C'', Some (arrow_out @ ''Y''))]"
    and i: "tree_ids ?t = [''A'', ''C'']"
    by (simp_all add: treeNode_def set_linkLabel_def actorA_def actorC_def)
  note th = filtered_tree_uses_matching_interactions [of "''Y''" mesh_example "''A''" ?t]
  have r: "relevantActors mesh_example (Some ''Y'') = endpoints mesh_example ''Y''"
    using mp [OF conjunct1 [OF th] n] .
  note both = mp [OF mp [OF conjunct1 [OF conjunct2 [OF th]] n] b]
  have g: "\<forall>e \<in> set (tree_edges ?t).
      from_matching_link mesh_example (Some ''Y'') e
      \<and> (snd (snd e) = Some (arrow_out @ ''Y'') \<or> snd (snd e) = Some (arrow_in @ ''Y''))"
    using conjunct1 [OF both] .
  have a: "\<forall>a \<in> set (tree_ids ?t). a = ''A'' \<or> a \<in> endpoints mesh_example ''Y''"
    using conjunct2 [OF both] .
  have "from_matching_link mesh_example (Some ''Y'') (''A'', ''C'', Some (arrow_out @ ''Y''))"
    using g e by simp
  moreover have "''C'' \<in> endpoints mesh_example ''Y''"
    using a i by simp
  ultimately show ?thesis using n b e r by (simp add: Let_def)
qed

end
